theory Spec2Isabelle
  imports Complex_Main "HOL-Library.AList"
begin

section \<open>Data model\<close>

text \<open>
  JavaScript values as far as the retrieval code inspects them: metadata bags and filter
  objects are \<open>Record<string, any>\<close>. A JavaScript number is modelled as a real; the
  code only multiplies, adds and compares scores, and the not-a-number and infinite values
  of IEEE arithmetic are left out of the model.
\<close>

datatype jsval =
    JUndefined
  | JNull
  | JBool bool
  | JNum real
  | JStr string
  | JObj "(string \<times> jsval) list"

type_synonym jsrecord = "string \<rightharpoonup> jsval"

text \<open>Reading a property that an object does not have yields \<open>undefined\<close>.\<close>

definition js_get :: "jsrecord \<Rightarrow> string \<Rightarrow> jsval" where
  "js_get obj k = (case obj k of None \<Rightarrow> JUndefined | Some v \<Rightarrow> v)"

text \<open>Truthiness, as used by \<open>x || ''\<close>.\<close>

fun js_truthy :: "jsval \<Rightarrow> bool" where
  "js_truthy JUndefined = False"
| "js_truthy JNull = False"
| "js_truthy (JBool b) = b"
| "js_truthy (JNum x) = (x \<noteq> 0)"
| "js_truthy (JStr s) = (s \<noteq> [])"
| "js_truthy (JObj fs) = True"

text \<open>
  \<open>SearchResult\<close>: the shape shared by the vector leg and the text leg. The field \<open>id\<close>
  is named \<open>id_sr\<close> here. The optional fields hold \<open>JUndefined\<close> when absent.
\<close>

record SearchResult =
  id_sr :: string
  content :: jsval
  score :: real
  videoId :: jsval
  videoTitle :: jsval
  timestamp :: jsval
  url :: jsval
  playlistId :: jsval
  publishedAt :: jsval

text \<open>\<open>QueryResult\<close> of the vector store interface.\<close>

record QueryResult =
  id_qr :: string
  score_qr :: real
  metadata_qr :: jsrecord

record HybridSearchResult =
  vectorResults :: "SearchResult list"
  textResults :: "SearchResult list"
  combinedResults :: "SearchResult list"

record search_options =
  vectorWeight :: real
  textWeight :: real
  minScore :: real

type_synonym filters = "(string \<times> jsval) list"

datatype error = BackendError string | TypeError string

section \<open>Fusion: \<open>HybridSearchService.combineResults\<close>\<close>

text \<open>
  The JavaScript \<open>Map\<close> keeps its keys in insertion order; \<open>set\<close> on a key that is present
  replaces the value in place, on a new key it appends. That is an association list with
  \<open>AList.update\<close>.
\<close>

type_synonym result_map = "(string \<times> SearchResult) list"

definition map_get :: "result_map \<Rightarrow> string \<Rightarrow> SearchResult option" where
  "map_get m k = map_of m k"

definition map_set :: "result_map \<Rightarrow> string \<Rightarrow> SearchResult \<Rightarrow> result_map" where
  "map_set m k v = AList.update k v m"

definition map_values :: "result_map \<Rightarrow> SearchResult list" where
  "map_values m = map snd m"

text \<open>The body of the first \<open>forEach\<close>: one vector-leg result.\<close>

definition add_vector_result :: "real \<Rightarrow> real \<Rightarrow> result_map \<Rightarrow> SearchResult \<Rightarrow> result_map" where
  "add_vector_result vw ms resultMap result =
     (if score result \<ge> ms
      then map_set resultMap (id_sr result) (result\<lparr>score := score result * vw\<rparr>)
      else resultMap)"

text \<open>
  The body of the second \<open>forEach\<close>: one text-leg result. An entry of the map is an
  object, hence truthy, so \<open>if (existing)\<close> tests presence.
\<close>

definition add_text_result :: "real \<Rightarrow> real \<Rightarrow> result_map \<Rightarrow> SearchResult \<Rightarrow> result_map" where
  "add_text_result tw ms resultMap result =
     (if score result \<ge> ms
      then (case map_get resultMap (id_sr result) of
              Some existing \<Rightarrow>
                map_set resultMap (id_sr result)
                  (existing\<lparr>score := score existing + score result * tw\<rparr>)
            | None \<Rightarrow>
                map_set resultMap (id_sr result) (result\<lparr>score := score result * tw\<rparr>))
      else resultMap)"

text \<open>
  \<open>sort((a, b) => b.score - a.score)\<close>: descending by score. The sort of the language is
  stable, as is insertion by key.
\<close>

definition sort_by_score_desc :: "SearchResult list \<Rightarrow> SearchResult list" where
  "sort_by_score_desc xs = sort_key (\<lambda>r. - score r) xs"

definition fuse :: "SearchResult list \<Rightarrow> SearchResult list \<Rightarrow> real \<Rightarrow> real \<Rightarrow> real \<Rightarrow> result_map" where
  "fuse vs ts vw tw ms =
     foldl (add_text_result tw ms) (foldl (add_vector_result vw ms) [] vs) ts"

definition combineResults ::
  "SearchResult list \<Rightarrow> SearchResult list \<Rightarrow> real \<Rightarrow> real \<Rightarrow> real \<Rightarrow> SearchResult list" where
  "combineResults vs ts vw tw ms = sort_by_score_desc (map_values (fuse vs ts vw tw ms))"

text \<open>
  \<open>xs.slice(0, e)\<close> for an integer \<open>e\<close>: a negative end counts from the end of the array.
\<close>

definition slice0 :: "'a list \<Rightarrow> int \<Rightarrow> 'a list" where
  "slice0 xs e = (if e < 0 then take (nat (int (length xs) + e)) xs else take (nat e) xs)"

section \<open>The two legs and \<open>HybridSearchService.search\<close>\<close>

text \<open>
  The three collaborators the service holds: \<open>embeddings.generateEmbedding\<close>,
  \<open>vectorStore.query\<close> and \<open>textSearch.searchText\<close>. Each is a remote call that either
  resolves to a value or rejects with an error. \<open>topK\<close> is taken to be an integer.
\<close>

record collaborators =
  generateEmbedding :: "string \<Rightarrow> error + real list"
  vectorStore_query :: "real list \<Rightarrow> int \<Rightarrow> filters option \<Rightarrow> error + QueryResult list"
  searchText :: "string \<Rightarrow> int \<Rightarrow> filters option \<Rightarrow> error + SearchResult list"

text \<open>The calls a leg dispatches to its collaborators, in the order the leg makes them.\<close>

datatype io_event =
    EmbeddingCall string
  | VectorQueryCall "real list" int "filters option"
  | TextSearchCall string int "filters option"

text \<open>The object literal built for each vector-store match.\<close>

definition to_search_result :: "QueryResult \<Rightarrow> SearchResult" where
  "to_search_result result =
     \<lparr>id_sr = id_qr result,
      content = (if js_truthy (js_get (metadata_qr result) ''content'')
                 then js_get (metadata_qr result) ''content'' else JStr []),
      score = score_qr result,
      videoId = js_get (metadata_qr result) ''videoId'',
      videoTitle = js_get (metadata_qr result) ''title'',
      timestamp = js_get (metadata_qr result) ''startTime'',
      url = js_get (metadata_qr result) ''url'',
      playlistId = js_get (metadata_qr result) ''playlistId'',
      publishedAt = js_get (metadata_qr result) ''publishedAt''\<rparr>"

text \<open>
  A leg is an async function: it yields the calls it dispatched and either a rejection
  (\<open>Inl\<close>) or its list. The \<open>catch\<close> block turns every error of the \<open>try\<close> block into
  the empty list.
\<close>

definition performVectorSearch ::
  "collaborators \<Rightarrow> string \<Rightarrow> int \<Rightarrow> filters option \<Rightarrow> io_event list \<times> (error + SearchResult list)" where
  "performVectorSearch env query topK fs =
     (case generateEmbedding env query of
        Inl err \<Rightarrow> ([EmbeddingCall query], Inr [])
      | Inr queryEmbedding \<Rightarrow>
          (case vectorStore_query env queryEmbedding topK fs of
             Inl err \<Rightarrow>
               ([EmbeddingCall query, VectorQueryCall queryEmbedding topK fs], Inr [])
           | Inr results \<Rightarrow>
               ([EmbeddingCall query, VectorQueryCall queryEmbedding topK fs],
                Inr (map to_search_result results))))"

definition performTextSearch ::
  "collaborators \<Rightarrow> string \<Rightarrow> int \<Rightarrow> filters option \<Rightarrow> io_event list \<times> (error + SearchResult list)" where
  "performTextSearch env query topK fs =
     (case searchText env query topK fs of
        Inl err \<Rightarrow> ([TextSearchCall query topK fs], Inr [])
      | Inr results \<Rightarrow> ([TextSearchCall query topK fs], Inr results))"

text \<open>The default values of the parameters \<open>topK\<close> and \<open>options\<close>.\<close>

definition effective_topK :: "int option \<Rightarrow> int" where
  "effective_topK a = (case a of None \<Rightarrow> 10 | Some k \<Rightarrow> k)"

definition effective_options :: "search_options option \<Rightarrow> search_options" where
  "effective_options a =
     (case a of
        None \<Rightarrow> \<lparr>vectorWeight = 0.7, textWeight = 0.3, minScore = 0.5\<rparr>
      | Some opts \<Rightarrow> opts)"

text \<open>
  \<open>search\<close>: both legs are started, \<open>Promise.all\<close> joins them (and would reject if a leg
  rejected), the lists are fused and the fused list is cut to \<open>topK\<close>. The first component
  is the list of calls dispatched, the vector leg's before the text leg's.
\<close>

definition search ::
  "collaborators \<Rightarrow> string \<Rightarrow> int option \<Rightarrow> filters option \<Rightarrow> search_options option
     \<Rightarrow> io_event list \<times> (error + HybridSearchResult)" where
  "search env query topK_arg fs options_arg =
     (let topK = effective_topK topK_arg;
          opts = effective_options options_arg;
          (io_v, leg_v) = performVectorSearch env query topK fs;
          (io_t, leg_t) = performTextSearch env query topK fs
      in (io_v @ io_t,
          case leg_v of
            Inl err \<Rightarrow> Inl err
          | Inr vectorResults' \<Rightarrow>
              (case leg_t of
                 Inl err \<Rightarrow> Inl err
               | Inr textResults' \<Rightarrow>
                   Inr \<lparr>vectorResults = vectorResults',
                        textResults = textResults',
                        combinedResults =
                          slice0 (combineResults vectorResults' textResults'
                                    (vectorWeight opts) (textWeight opts) (minScore opts)) topK\<rparr>)))"

section \<open>Fusion over a store of objects\<close>

text \<open>
  The arrays of the program hold references to objects, and \<open>existing.score += ...\<close>
  writes into an object. To see which objects fusion writes to, the same code is modelled
  over a store: an object lives at an address (its index in the store), an array is a list
  of addresses, and a new object literal is appended to the store.
\<close>

type_synonym addr = nat
type_synonym store = "SearchResult list"
type_synonym addr_map = "(string \<times> addr) list"

definition alloc :: "store \<Rightarrow> SearchResult \<Rightarrow> store \<times> addr" where
  "alloc h v = (h @ [v], length h)"

definition add_vector_result_h :: "real \<Rightarrow> real \<Rightarrow> store \<times> addr_map \<Rightarrow> addr \<Rightarrow> store \<times> addr_map" where
  "add_vector_result_h vw ms st a =
     (let h = fst st; resultMap = snd st; result = h ! a
      in if score result \<ge> ms
         then (let (h', c) = alloc h (result\<lparr>score := score result * vw\<rparr>)
               in (h', AList.update (id_sr result) c resultMap))
         else (h, resultMap))"

definition add_text_result_h :: "real \<Rightarrow> real \<Rightarrow> store \<times> addr_map \<Rightarrow> addr \<Rightarrow> store \<times> addr_map" where
  "add_text_result_h tw ms st a =
     (let h = fst st; resultMap = snd st; result = h ! a
      in if score result \<ge> ms
         then (case map_of resultMap (id_sr result) of
                 Some existing \<Rightarrow>
                   (h[existing := (h ! existing)\<lparr>score := score (h ! existing) + score result * tw\<rparr>],
                    resultMap)
               | None \<Rightarrow>
                   (let (h', c) = alloc h (result\<lparr>score := score result * tw\<rparr>)
                    in (h', AList.update (id_sr result) c resultMap)))
         else (h, resultMap))"

definition combineResults_h ::
  "store \<Rightarrow> addr list \<Rightarrow> addr list \<Rightarrow> real \<Rightarrow> real \<Rightarrow> real \<Rightarrow> store \<times> addr list" where
  "combineResults_h h vs ts vw tw ms =
     (let st = foldl (add_text_result_h tw ms) (foldl (add_vector_result_h vw ms) (h, []) vs) ts
      in (fst st, sort_key (\<lambda>a. - score (fst st ! a)) (map snd (snd st))))"

text \<open>An array of addresses is valid in a store when every address holds an object.\<close>

definition valid_refs :: "store \<Rightarrow> addr list \<Rightarrow> bool" where
  "valid_refs h as = list_all (\<lambda>a. a < length h) as"

text \<open>Reading an array: the objects its references point to.\<close>

definition deref :: "store \<Rightarrow> addr list \<Rightarrow> SearchResult list" where
  "deref h as = map (\<lambda>a. h ! a) as"

text \<open>
  The last statements of \<open>search\<close>, after the two legs have resolved to the arrays
  \<open>vectorResults\<close> and \<open>textResults\<close>: fusion runs on them, and the object returned holds
  the same two arrays and the cut of the fused array.
\<close>

record HybridSearchResult_h =
  vectorResults_h :: "addr list"
  textResults_h :: "addr list"
  combinedResults_h :: "addr list"

definition search_fuse_h ::
  "store \<Rightarrow> addr list \<Rightarrow> addr list \<Rightarrow> int \<Rightarrow> search_options \<Rightarrow> store \<times> HybridSearchResult_h" where
  "search_fuse_h h vs ts topK opts =
     (let (h', combined) =
            combineResults_h h vs ts (vectorWeight opts) (textWeight opts) (minScore opts)
      in (h', \<lparr>vectorResults_h = vs,
               textResults_h = ts,
               combinedResults_h = slice0 combined topK\<rparr>))"

section \<open>\<open>MongoDBVectorStore\<close>\<close>

datatype metric = Euclidean | Cosine | DotProduct

record MongoVectorStoreConfig =
  connectionString :: string
  databaseName :: string
  collectionName :: string
  indexName :: string
  dimensions :: nat
  similarityMetric :: metric

record VectorData =
  id_vd :: string
  values_vd :: "real list"
  metadata_vd :: jsrecord

text \<open>The stored document; \<open>doc_id\<close> is the field \<open>_id\<close>, the two dates are clock readings.\<close>

record MongoVectorDocument =
  doc_id :: string
  content_doc :: jsval
  embedding :: "real list"
  metadata_doc :: jsrecord
  createdAt :: nat
  updatedAt :: nat

record VectorStoreStats =
  totalVectors :: nat
  dimensions_stats :: nat
  indexSize :: nat

text \<open>
  The collection behind the driver: its documents in storage order (the server keeps
  \<open>_id\<close> unique), the index size the server reports, and the error of the driver, if the
  server cannot be reached. The three driver calls the store makes are modelled by what the
  driver documents: \<open>replaceOne\<close> with \<open>upsert: true\<close> replaces the document with the same
  \<open>_id\<close> or inserts, \<open>deleteMany\<close> with \<open>$in\<close> removes the documents whose \<open>_id\<close> is listed,
  \<open>countDocuments\<close> counts. An empty list of operations is left aside: the properties
  of \<open>upsert\<close> below are stated for a batch with at least one record.
\<close>

record database =
  documents :: "MongoVectorDocument list"
  stats_indexSize :: nat
  fault :: "error option"

fun replaceOne_upsert :: "MongoVectorDocument list \<Rightarrow> MongoVectorDocument \<Rightarrow> MongoVectorDocument list" where
  "replaceOne_upsert [] doc = [doc]"
| "replaceOne_upsert (d # ds) doc =
     (if doc_id d = doc_id doc then doc # ds else d # replaceOne_upsert ds doc)"

definition bulkWrite :: "database \<Rightarrow> MongoVectorDocument list \<Rightarrow> error + database" where
  "bulkWrite db operations =
     (case fault db of
        Some err \<Rightarrow> Inl err
      | None \<Rightarrow> Inr (db\<lparr>documents := foldl replaceOne_upsert (documents db) operations\<rparr>))"

definition deleteMany_in :: "database \<Rightarrow> string list \<Rightarrow> error + database" where
  "deleteMany_in db ids =
     (case fault db of
        Some err \<Rightarrow> Inl err
      | None \<Rightarrow> Inr (db\<lparr>documents := filter (\<lambda>d. doc_id d \<notin> set ids) (documents db)\<rparr>))"

definition countDocuments :: "database \<Rightarrow> error + nat" where
  "countDocuments db = (case fault db of Some err \<Rightarrow> Inl err | None \<Rightarrow> Inr (length (documents db)))"

definition db_stats :: "database \<Rightarrow> error + nat" where
  "db_stats db = (case fault db of Some err \<Rightarrow> Inl err | None \<Rightarrow> Inr (stats_indexSize db))"

text \<open>
  The document built for one record. In the metadata literal the six named keys come
  first and the spread of the record's metadata follows, so the metadata's own entries
  win and a named key the metadata lacks is present with the value \<open>undefined\<close>.
\<close>

definition named_metadata_keys :: "string list" where
  "named_metadata_keys =
     [''videoId'', ''playlistId'', ''title'', ''publishedAt'', ''startTime'', ''url'']"

definition to_document :: "nat \<Rightarrow> VectorData \<Rightarrow> MongoVectorDocument" where
  "to_document now vector =
     \<lparr>doc_id = id_vd vector,
      content_doc = (if js_truthy (js_get (metadata_vd vector) ''content'')
                     then js_get (metadata_vd vector) ''content'' else JStr []),
      embedding = values_vd vector,
      metadata_doc =
        (\<lambda>k. if k \<in> set named_metadata_keys then Some (js_get (metadata_vd vector) k) else None)
          ++ metadata_vd vector,
      createdAt = now,
      updatedAt = now\<rparr>"

text \<open>\<open>upsert\<close>: the error of the bulk write is logged and thrown again.\<close>

definition upsert :: "MongoVectorStoreConfig \<Rightarrow> nat \<Rightarrow> VectorData list \<Rightarrow> database \<Rightarrow> error + database" where
  "upsert config now vectors db =
     (let docs = map (to_document now) vectors;
          operations = docs
      in case bulkWrite db operations of
           Inl err \<Rightarrow> Inl err
         | Inr db' \<Rightarrow> Inr db')"

definition delete :: "MongoVectorStoreConfig \<Rightarrow> string list \<Rightarrow> database \<Rightarrow> error + database" where
  "delete config ids db =
     (case deleteMany_in db ids of
        Inl err \<Rightarrow> Inl err
      | Inr db' \<Rightarrow> Inr db')"

definition getStats :: "MongoVectorStoreConfig \<Rightarrow> database \<Rightarrow> error + VectorStoreStats" where
  "getStats config db =
     (case countDocuments db of
        Inl err \<Rightarrow> Inl err
      | Inr n_docs \<Rightarrow>
          (case db_stats db of
             Inl err \<Rightarrow> Inl err
           | Inr size_of_index \<Rightarrow>
               Inr \<lparr>totalVectors = n_docs,
                    dimensions_stats = dimensions config,
                    indexSize = size_of_index\<rparr>))"

subsection \<open>\<open>buildFilterQuery\<close>\<close>

text \<open>
  The filter document maps a field path to an operator object, itself a map from
  operator name to operand. The filter object is given by its entries, in the order
  \<open>Object.entries\<close> yields them.
\<close>

type_synonym operator_object = "string \<rightharpoonup> jsval"
type_synonym filter_query = "string \<rightharpoonup> operator_object"

text \<open>
  \<open>const { min, max } = value\<close>: destructuring \<open>null\<close> or \<open>undefined\<close> throws a
  TypeError; a primitive has neither property.
\<close>

fun destructure_min_max :: "jsval \<Rightarrow> error + jsval \<times> jsval" where
  "destructure_min_max JUndefined = Inl (TypeError ''Cannot destructure undefined'')"
| "destructure_min_max JNull = Inl (TypeError ''Cannot destructure null'')"
| "destructure_min_max (JObj fs) =
     Inr (case map_of fs ''min'' of None \<Rightarrow> JUndefined | Some v \<Rightarrow> v,
          case map_of fs ''max'' of None \<Rightarrow> JUndefined | Some v \<Rightarrow> v)"
| "destructure_min_max v = Inr (JUndefined, JUndefined)"

text \<open>The body of the loop, for one entry. An operator object is truthy.\<close>

definition filter_entry :: "filter_query \<Rightarrow> string \<times> jsval \<Rightarrow> error + filter_query" where
  "filter_entry filterQuery entry =
     (let key = fst entry; val = snd entry
      in if key = ''videoId'' \<or> key = ''playlistId''
         then Inr (filterQuery(''metadata.'' @ key \<mapsto> [''$eq'' \<mapsto> val]))
         else if key = ''publishedAfter'' \<or> key = ''publishedBefore''
         then (let dateField = ''metadata.publishedAt'';
                   obj = (case filterQuery dateField of None \<Rightarrow> Map.empty | Some ob \<Rightarrow> ob)
               in if key = ''publishedAfter''
                  then Inr (filterQuery(dateField \<mapsto> obj(''$gte'' \<mapsto> val)))
                  else Inr (filterQuery(dateField \<mapsto> obj(''$lte'' \<mapsto> val))))
         else if key = ''startTimeRange''
         then (case destructure_min_max val of
                 Inl err \<Rightarrow> Inl err
               | Inr (mn, mx) \<Rightarrow>
                   (let ob0 = Map.empty;
                        ob1 = (if mn \<noteq> JUndefined then ob0(''$gte'' \<mapsto> mn) else ob0);
                        ob2 = (if mx \<noteq> JUndefined then ob1(''$lte'' \<mapsto> mx) else ob1)
                    in Inr (filterQuery(''metadata.startTime'' \<mapsto> ob2))))
         else Inr (filterQuery(''metadata.'' @ key \<mapsto> [''$eq'' \<mapsto> val])))"

fun filter_entries :: "filter_query \<Rightarrow> filters \<Rightarrow> error + filter_query" where
  "filter_entries filterQuery [] = Inr filterQuery"
| "filter_entries filterQuery (entry # rest) =
     (case filter_entry filterQuery entry of
        Inl err \<Rightarrow> Inl err
      | Inr filterQuery' \<Rightarrow> filter_entries filterQuery' rest)"

definition buildFilterQuery :: "filters \<Rightarrow> error + filter_query" where
  "buildFilterQuery fs = filter_entries Map.empty fs"

text \<open>
  What a filter document holds: the entries \<open>(field, operator, operand)\<close> of its
  operator objects. An entry is read by the operator's own name, so every operator the
  document carries is an entry; a matching document satisfies all of them.
\<close>

definition has_entry :: "filter_query \<Rightarrow> string \<times> string \<times> jsval \<Rightarrow> bool" where
  "has_entry filterQuery q =
     (case filterQuery (fst q) of
        None \<Rightarrow> False
      | Some ob \<Rightarrow> ob (fst (snd q)) = Some (snd (snd q)))"

text \<open>
  The translation as the specification words it, entry by entry: the predicates each
  key of the filter object stands for. Equality is the operator \<open>$eq\<close>, the inclusive
  bounds are \<open>$gte\<close> and \<open>$lte\<close>.
\<close>

definition spec_entry_predicates :: "string \<times> jsval \<Rightarrow> (string \<times> string \<times> jsval) list" where
  "spec_entry_predicates entry =
     (let key = fst entry; val = snd entry
      in if key = ''videoId'' then [(''metadata.videoId'', ''$eq'', val)]
         else if key = ''playlistId'' then [(''metadata.playlistId'', ''$eq'', val)]
         else if key = ''publishedAfter'' then [(''metadata.publishedAt'', ''$gte'', val)]
         else if key = ''publishedBefore'' then [(''metadata.publishedAt'', ''$lte'', val)]
         else if key = ''startTimeRange''
         then (case val of
                 JObj fs \<Rightarrow>
                   (case map_of fs ''min'' of
                      None \<Rightarrow> [] | Some mn \<Rightarrow>
                        if mn = JUndefined then [] else [(''metadata.startTime'', ''$gte'', mn)]) @
                   (case map_of fs ''max'' of
                      None \<Rightarrow> [] | Some mx \<Rightarrow>
                        if mx = JUndefined then [] else [(''metadata.startTime'', ''$lte'', mx)])
               | _ \<Rightarrow> [])
         else [(''metadata.'' @ key, ''$eq'', val)])"

definition spec_predicates :: "filters \<Rightarrow> (string \<times> string \<times> jsval) list" where
  "spec_predicates fs = concat (map spec_entry_predicates fs)"


section \<open>Notions used to state the properties\<close>

text \<open>
  The results of a leg that carry a given id and pass the gate on their native score, the
  weighted terms the text leg adds for an id, and the shape of the merge map (keys
  distinct, each entry stored under its own id).
\<close>

definition passing :: "real \<Rightarrow> string \<Rightarrow> SearchResult list \<Rightarrow> SearchResult list" where
  "passing ms i rs = filter (\<lambda>r. id_sr r = i \<and> ms \<le> score r) rs"

definition text_terms :: "real \<Rightarrow> real \<Rightarrow> string \<Rightarrow> SearchResult list \<Rightarrow> real list" where
  "text_terms tw ms i ts = map (\<lambda>t. score t * tw) (passing ms i ts)"

definition keyed :: "result_map \<Rightarrow> bool" where
  "keyed m = (distinct (map fst m) \<and> list_all (\<lambda>p. id_sr (snd p) = fst p) m)"

text \<open>A list without its last \<open>n\<close> elements.\<close>

definition butlast_n :: "nat \<Rightarrow> 'a list \<Rightarrow> 'a list" where
  "butlast_n n xs = take (length xs - n) xs"

text \<open>
  The merge map of the store-level fusion read as a map of values, and the invariant of
  the store-level loop over an initial store \<open>h0\<close>: the initial objects are untouched,
  and the map holds distinct addresses of objects allocated after them.
\<close>

definition abs_map :: "store \<Rightarrow> addr_map \<Rightarrow> result_map" where
  "abs_map h m = map (\<lambda>p. (fst p, h ! snd p)) m"

definition store_inv :: "store \<Rightarrow> store \<times> addr_map \<Rightarrow> bool" where
  "store_inv h0 st =
     (length h0 \<le> length (fst st) \<and> take (length h0) (fst st) = h0
      \<and> list_all (\<lambda>p. length h0 \<le> snd p \<and> snd p < length (fst st)) (snd st)
      \<and> distinct (map snd (snd st)))"

text \<open>What a call of \<open>upsert\<close> leaves in the collection: the ids and the stored vectors.\<close>

definition stored_embeddings :: "error + database \<Rightarrow> error + (string \<times> real list) list" where
  "stored_embeddings res =
     (case res of
        Inl err \<Rightarrow> Inl err
      | Inr db \<Rightarrow> Inr (map (\<lambda>d. (doc_id d, embedding d)) (documents db)))"

text \<open>
  For the filter translation. The field a key of the filter object constrains. An entry
  overwrites what an earlier key wrote when its key is \<open>publishedAt\<close> after
  \<open>publishedAfter\<close> or \<open>publishedBefore\<close>, or when \<open>startTime\<close> and \<open>startTimeRange\<close> both
  occur; a \<open>publishedAt\<close> before the two range keys is kept. The value of
  \<open>startTimeRange\<close> has a bound when it can be destructured and \<open>min\<close> or \<open>max\<close> is
  defined. Last, the entries of a call's outcome.
\<close>

definition filter_field :: "string \<Rightarrow> string" where
  "filter_field k =
     (if k = ''publishedAfter'' \<or> k = ''publishedBefore'' then ''metadata.publishedAt''
      else if k = ''startTimeRange'' then ''metadata.startTime''
      else ''metadata.'' @ k)"

definition overwrites :: "string list \<Rightarrow> string \<Rightarrow> bool" where
  "overwrites seen k =
     ((k = ''publishedAt'' \<and> (''publishedAfter'' \<in> set seen \<or> ''publishedBefore'' \<in> set seen))
      \<or> (k = ''startTime'' \<and> ''startTimeRange'' \<in> set seen)
      \<or> (k = ''startTimeRange'' \<and> ''startTime'' \<in> set seen))"

fun no_overwrite_from :: "string list \<Rightarrow> string list \<Rightarrow> bool" where
  "no_overwrite_from seen [] = True"
| "no_overwrite_from seen (k # ks) = (\<not> overwrites seen k \<and> no_overwrite_from (k # seen) ks)"

definition no_field_collision :: "string list \<Rightarrow> bool" where
  "no_field_collision ks = no_overwrite_from [] ks"

definition has_bound :: "jsval \<Rightarrow> bool" where
  "has_bound v =
     (case destructure_min_max v of
        Inl err \<Rightarrow> False
      | Inr (mn, mx) \<Rightarrow> mn \<noteq> JUndefined \<or> mx \<noteq> JUndefined)"

definition range_has_bound :: "filters \<Rightarrow> bool" where
  "range_has_bound fs = list_all (\<lambda>e. fst e \<noteq> ''startTimeRange'' \<or> has_bound (snd e)) fs"

definition result_has_entry :: "error + filter_query \<Rightarrow> string \<times> string \<times> jsval \<Rightarrow> bool" where
  "result_has_entry res q = (case res of Inl err \<Rightarrow> False | Inr fq \<Rightarrow> has_entry fq q)"


section \<open>Example inputs\<close>

text \<open>
  A result and a vector-store match with no optional metadata, collaborators that answer
  every call with a fixed outcome, and the default options; a store configuration, a
  record, a stored document and a reachable collection; a filter object.
\<close>

definition example_result :: "string \<Rightarrow> real \<Rightarrow> SearchResult" where
  "example_result i s =
     \<lparr>id_sr = i, content = JStr i, score = s, videoId = JUndefined, videoTitle = JUndefined,
      timestamp = JUndefined, url = JUndefined, playlistId = JUndefined,
      publishedAt = JUndefined\<rparr>"

definition example_match :: "string \<Rightarrow> real \<Rightarrow> QueryResult" where
  "example_match i s = \<lparr>id_qr = i, score_qr = s, metadata_qr = [''content'' \<mapsto> JStr i]\<rparr>"

definition example_env ::
  "error + real list \<Rightarrow> error + QueryResult list \<Rightarrow> error + SearchResult list \<Rightarrow> collaborators" where
  "example_env emb matches texts =
     \<lparr>generateEmbedding = (\<lambda>q. emb),
      vectorStore_query = (\<lambda>v k f. matches),
      searchText = (\<lambda>q k f. texts)\<rparr>"

definition example_options :: search_options where
  "example_options = \<lparr>vectorWeight = 0.7, textWeight = 0.3, minScore = 0.5\<rparr>"

definition example_config :: "nat \<Rightarrow> MongoVectorStoreConfig" where
  "example_config n =
     \<lparr>connectionString = ''mongodb://localhost'', databaseName = ''tube'',
      collectionName = ''embeddings'', indexName = ''vector_index'', dimensions = n,
      similarityMetric = Cosine\<rparr>"

definition example_vector :: "string \<Rightarrow> real list \<Rightarrow> VectorData" where
  "example_vector i xs = \<lparr>id_vd = i, values_vd = xs, metadata_vd = Map.empty\<rparr>"

definition example_document :: "string \<Rightarrow> real list \<Rightarrow> MongoVectorDocument" where
  "example_document i xs =
     \<lparr>doc_id = i, content_doc = JStr [], embedding = xs, metadata_doc = Map.empty,
      createdAt = 0, updatedAt = 0\<rparr>"

definition example_database :: "MongoVectorDocument list \<Rightarrow> database" where
  "example_database ds = \<lparr>documents = ds, stats_indexSize = 0, fault = None\<rparr>"

definition example_filters :: filters where
  "example_filters =
     [(''videoId'', JStr ''v1''),
      (''publishedAt'', JStr ''2024-06-01''),
      (''publishedAfter'', JStr ''2024-01-01''),
      (''publishedBefore'', JStr ''2024-12-31''),
      (''startTimeRange'', JObj [(''min'', JNum 10)]),
      (''channel'', JStr ''c'')]"


section \<open>Properties of fusion\<close>

lemma map_of_add_vector_result:
  "map_of (add_vector_result vw ms m r) i =
     (if ms \<le> score r \<and> id_sr r = i then Some (r\<lparr>score := score r * vw\<rparr>) else map_of m i)"
  by (simp add: add_vector_result_def map_set_def update_conv')

lemma map_of_add_text_result:
  "map_of (add_text_result tw ms m r) i =
     (if ms \<le> score r \<and> id_sr r = i
      then Some (case map_of m i of
                   Some e \<Rightarrow> e\<lparr>score := score e + score r * tw\<rparr>
                 | None \<Rightarrow> r\<lparr>score := score r * tw\<rparr>)
      else map_of m i)"
  by (simp add: add_text_result_def map_set_def map_get_def update_conv' split: option.splits)

lemma keyed_update:
  "keyed m \<Longrightarrow> id_sr e = k \<Longrightarrow> keyed (AList.update k e m)"
  unfolding keyed_def
proof (induction m)
  case Nil
  then show ?case by simp
next
  case (Cons p m)
  then show ?case by (cases p) (auto simp: distinct_update dom_update image_iff)
qed

lemma keyed_add_vector_result: "keyed m \<Longrightarrow> keyed (add_vector_result vw ms m r)"
  by (simp add: add_vector_result_def map_set_def keyed_update)

lemma keyed_entry: "keyed m \<Longrightarrow> map_of m k = Some e \<Longrightarrow> id_sr e = k"
  unfolding keyed_def by (induction m) (auto split: if_splits)

lemma keyed_add_text_result: "keyed m \<Longrightarrow> keyed (add_text_result tw ms m r)"
  by (auto simp: add_text_result_def map_set_def map_get_def keyed_update keyed_entry
           split: option.splits)

lemma keyed_foldl_vector: "keyed m \<Longrightarrow> keyed (foldl (add_vector_result vw ms) m vs)"
  by (induction vs arbitrary: m) (simp_all add: keyed_add_vector_result)

lemma keyed_foldl_text: "keyed m \<Longrightarrow> keyed (foldl (add_text_result tw ms) m ts)"
  by (induction ts arbitrary: m) (simp_all add: keyed_add_text_result)

lemma keyed_fuse: "keyed (fuse vs ts vw tw ms)"
proof -
  have "keyed []" by (simp add: keyed_def)
  then show ?thesis
    unfolding fuse_def by (intro keyed_foldl_text keyed_foldl_vector)
qed

lemma map_of_foldl_vector:
  "map_of (foldl (add_vector_result vw ms) m vs) i =
     (if passing ms i vs = [] then map_of m i
      else Some ((last (passing ms i vs))\<lparr>score := score (last (passing ms i vs)) * vw\<rparr>))"
proof (induction vs rule: rev_induct)
  case Nil
  then show ?case by (simp add: passing_def)
next
  case (snoc v vs)
  then show ?case by (simp add: map_of_add_vector_result passing_def)
qed

lemma map_of_foldl_text_Some:
  "map_of m i = Some e \<Longrightarrow>
   map_of (foldl (add_text_result tw ms) m ts) i =
     Some (e\<lparr>score := score e + sum_list (text_terms tw ms i ts)\<rparr>)"
proof (induction ts arbitrary: m e)
  case Nil
  then show ?case by (simp add: text_terms_def passing_def)
next
  case (Cons t ts)
  show ?case
  proof (cases "ms \<le> score t \<and> id_sr t = i")
    case True
    have "map_of (add_text_result tw ms m t) i = Some (e\<lparr>score := score e + score t * tw\<rparr>)"
      using True Cons.prems by (simp add: map_of_add_text_result)
    from Cons.IH [OF this] True show ?thesis
      by (simp add: text_terms_def passing_def add.assoc)
  next
    case False
    have "map_of (add_text_result tw ms m t) i = Some e"
      using False Cons.prems by (auto simp add: map_of_add_text_result)
    from Cons.IH [OF this] False show ?thesis
      by (auto simp add: text_terms_def passing_def)
  qed
qed


lemma set_combineResults:
  "set (combineResults vs ts vw tw ms) = snd ` set (fuse vs ts vw tw ms)"
  by (simp add: combineResults_def sort_by_score_desc_def map_values_def)

lemma combineResults_entry_iff:
  "(e \<in> set (combineResults vs ts vw tw ms) \<and> id_sr e = i) \<longleftrightarrow>
   map_of (fuse vs ts vw tw ms) i = Some e"
proof -
  have k: "keyed (fuse vs ts vw tw ms)" by (rule keyed_fuse)
  then have d: "distinct (map fst (fuse vs ts vw tw ms))" by (simp add: keyed_def)
  show ?thesis
  proof
    assume a: "e \<in> set (combineResults vs ts vw tw ms) \<and> id_sr e = i"
    then obtain k' where m: "(k', e) \<in> set (fuse vs ts vw tw ms)"
      by (auto simp: set_combineResults)
    then have "map_of (fuse vs ts vw tw ms) k' = Some e" using d by simp
    moreover from this have "id_sr e = k'" using k keyed_entry by blast
    ultimately show "map_of (fuse vs ts vw tw ms) i = Some e" using a by simp
  next
    assume a: "map_of (fuse vs ts vw tw ms) i = Some e"
    then have "(i, e) \<in> set (fuse vs ts vw tw ms)" by (rule map_of_SomeD)
    then have "e \<in> set (combineResults vs ts vw tw ms)"
      by (force simp: set_combineResults)
    then show "e \<in> set (combineResults vs ts vw tw ms) \<and> id_sr e = i"
      using keyed_entry [OF k a] by simp
  qed
qed

lemma map_of_fuse_both:
  assumes "passing ms i vs \<noteq> []"
  shows "map_of (fuse vs ts vw tw ms) i =
           Some ((last (passing ms i vs))
                   \<lparr>score := score (last (passing ms i vs)) * vw + sum_list (text_terms tw ms i ts)\<rparr>)"
proof -
  have "map_of (foldl (add_vector_result vw ms) [] vs) i =
          Some ((last (passing ms i vs))\<lparr>score := score (last (passing ms i vs)) * vw\<rparr>)"
    using assms by (simp add: map_of_foldl_vector)
  from map_of_foldl_text_Some [OF this, of tw ms ts] show ?thesis
    by (simp add: fuse_def)
qed


lemmas example_defs = example_result_def example_match_def example_env_def example_options_def

lemmas search_defs = search_def performVectorSearch_def performTextSearch_def
  effective_topK_def effective_options_def to_search_result_def js_get_def slice0_def
  Let_def

lemmas fusion_defs = combineResults_def fuse_def add_vector_result_def add_text_result_def
  map_set_def map_get_def map_values_def sort_by_score_desc_def

lemma search_returns:
  "\<exists>vs ts. snd (search env query ta fs oa) =
     Inr \<lparr>vectorResults = vs, textResults = ts,
          combinedResults =
            slice0 (combineResults vs ts (vectorWeight (effective_options oa))
                      (textWeight (effective_options oa)) (minScore (effective_options oa)))
              (effective_topK ta)\<rparr>"
  by (simp add: search_def performVectorSearch_def performTextSearch_def Let_def
           split: sum.splits prod.splits)

lemma search_combined:
  assumes "snd (search env query ta fs oa) = Inr r"
  shows "combinedResults r =
           slice0 (combineResults (vectorResults r) (textResults r)
                     (vectorWeight (effective_options oa)) (textWeight (effective_options oa))
                     (minScore (effective_options oa)))
             (effective_topK ta)"
  using search_returns [of env query ta fs oa] assms by auto

lemma set_slice0: "set (slice0 xs k) \<subseteq> set xs"
  by (simp add: slice0_def set_take_subset)





lemma sorted_combineResults:
  "sorted_wrt (\<lambda>a b. score b \<le> score a) (combineResults vs ts vw tw ms)"
proof -
  have "sorted (map (\<lambda>r. - score r) (combineResults vs ts vw tw ms))"
    by (simp add: combineResults_def sort_by_score_desc_def)
  then show ?thesis by (simp add: sorted_map)
qed

lemma sorted_slice0:
  "sorted_wrt P xs \<Longrightarrow> sorted_wrt P (slice0 xs k)"
  by (simp add: slice0_def sorted_wrt_take)

lemma length_slice0: "1 \<le> k \<Longrightarrow> int (length (slice0 xs k)) \<le> k"
  by (simp add: slice0_def)

subsection \<open>Score accumulation\<close>




subsection \<open>The gate on native scores\<close>





subsection \<open>Length and order of the fused list\<close>

text \<open>
  C4. For a non-empty query and \<open>topK\<close> of at least one, \<open>search\<close> returns, the list
  \<open>combinedResults\<close> has at most \<open>topK\<close> entries and it is sorted by score, descending.
\<close>

theorem combined_bounded_and_sorted:
  assumes "query \<noteq> []" and "1 \<le> effective_topK ta"
  shows "\<exists>r. snd (search env query ta fs oa) = Inr r
           \<and> int (length (combinedResults r)) \<le> effective_topK ta
           \<and> sorted_wrt (\<lambda>a b. score b \<le> score a) (combinedResults r)"
proof -
  obtain r where r: "snd (search env query ta fs oa) = Inr r"
    using search_returns [of env query ta fs oa] by blast
  have "int (length (combinedResults r)) \<le> effective_topK ta"
    using search_combined [OF r] length_slice0 [OF assms(2)] by simp
  moreover have "sorted_wrt (\<lambda>a b. score b \<le> score a) (combinedResults r)"
    using search_combined [OF r] sorted_slice0 [OF sorted_combineResults] by simp
  ultimately show ?thesis using r by blast
qed

theorem combined_bounded_and_sorted_witness:
  "''database indexing'' \<noteq> [] \<and> 1 \<le> effective_topK (Some 2)
   \<and> snd (search (example_env (Inr [1]) (Inr [example_match ''a'' 0.9, example_match ''b'' 0.6])
                  (Inr [example_result ''b'' 0.8, example_result ''c'' 0.7]))
          ''database indexing'' (Some 2) None None) =
     Inr \<lparr>vectorResults = [example_result ''a'' 0.9, example_result ''b'' 0.6],
          textResults = [example_result ''b'' 0.8, example_result ''c'' 0.7],
          combinedResults = [example_result ''b'' 0.66, example_result ''a'' 0.63]\<rparr>
   \<and> int (length [example_result ''b'' 0.66, example_result ''a'' 0.63]) \<le> effective_topK (Some 2)
   \<and> sorted_wrt (\<lambda>a b. score b \<le> score a) [example_result ''b'' 0.66, example_result ''a'' 0.63]"
proof -
  have q: "''database indexing'' \<noteq> []" by simp
  have k: "1 \<le> effective_topK (Some 2)" by (simp add: effective_topK_def)
  have h: "snd (search (example_env (Inr [1]) (Inr [example_match ''a'' 0.9, example_match ''b'' 0.6])
                  (Inr [example_result ''b'' 0.8, example_result ''c'' 0.7]))
          ''database indexing'' (Some 2) None None) =
     Inr \<lparr>vectorResults = [example_result ''a'' 0.9, example_result ''b'' 0.6],
          textResults = [example_result ''b'' 0.8, example_result ''c'' 0.7],
          combinedResults = [example_result ''b'' 0.66, example_result ''a'' 0.63]\<rparr>"
    by (simp add: search_defs fusion_defs example_defs)
  from combined_bounded_and_sorted [OF q k, of _ None None] h q k show ?thesis
    by (metis HybridSearchResult.select_convs(3) sum.inject(2))
qed

subsection \<open>Which leg the fields of a fused entry come from\<close>

text \<open>
  C10. When an id \<open>i\<close> passes the gate on both legs, the fused list has an entry for
  \<open>i\<close>, and every entry for \<open>i\<close>, in the fused list and in \<open>combinedResults\<close>, is the
  vector leg's result for \<open>i\<close> (the last one that passes the gate) with only its score
  replaced: content, videoId, videoTitle, timestamp, url, playlistId and publishedAt are
  the vector leg's. The text leg enters through the sum of its weighted scores alone.
\<close>

theorem fused_entry_fields_from_vector_leg:
  assumes "snd (search env query ta fs oa) = Inr r"
    and "passing (minScore (effective_options oa)) i (vectorResults r) \<noteq> []"
    and "passing (minScore (effective_options oa)) i (textResults r) \<noteq> []"
  shows "(\<exists>e \<in> set (combineResults (vectorResults r) (textResults r)
                      (vectorWeight (effective_options oa)) (textWeight (effective_options oa))
                      (minScore (effective_options oa))). id_sr e = i)
       \<and> (\<forall>e \<in> set (combineResults (vectorResults r) (textResults r)
                      (vectorWeight (effective_options oa)) (textWeight (effective_options oa))
                      (minScore (effective_options oa))) \<union> set (combinedResults r).
            id_sr e = i \<longrightarrow>
            e = (last (passing (minScore (effective_options oa)) i (vectorResults r)))
                  \<lparr>score :=
                     score (last (passing (minScore (effective_options oa)) i (vectorResults r)))
                       * vectorWeight (effective_options oa)
                     + sum_list (text_terms (textWeight (effective_options oa))
                                   (minScore (effective_options oa)) i (textResults r))\<rparr>)"
proof -
  let ?vw = "vectorWeight (effective_options oa)"
  let ?tw = "textWeight (effective_options oa)"
  let ?ms = "minScore (effective_options oa)"
  let ?c = "combineResults (vectorResults r) (textResults r) ?vw ?tw ?ms"
  let ?v = "last (passing ?ms i (vectorResults r))"
  let ?e = "?v\<lparr>score := score ?v * ?vw + sum_list (text_terms ?tw ?ms i (textResults r))\<rparr>"
  have m: "map_of (fuse (vectorResults r) (textResults r) ?vw ?tw ?ms) i = Some ?e"
    using map_of_fuse_both [OF assms(2)] .
  have all: "e = ?e" if "e \<in> set ?c" "id_sr e = i" for e
    using that m combineResults_entry_iff [of e "vectorResults r" "textResults r" ?vw ?tw ?ms i]
    by auto
  have ex: "\<exists>e \<in> set ?c. id_sr e = i"
    using m combineResults_entry_iff [of _ "vectorResults r" "textResults r" ?vw ?tw ?ms i]
    by blast
  have sub: "set (combinedResults r) \<subseteq> set ?c"
    using search_combined [OF assms(1)] set_slice0 by metis
  show ?thesis using all ex sub by blast
qed

theorem fused_entry_fields_from_vector_leg_witness:
  "snd (search (example_env (Inr [1]) (Inr [example_match ''a'' 0.9, example_match ''b'' 0.6])
                  (Inr [(example_result ''b'' 0.8)\<lparr>content := JStr ''text'', url := JStr ''u''\<rparr>,
                        example_result ''c'' 0.7]))
          ''database indexing'' (Some 2) None (Some example_options)) =
     Inr \<lparr>vectorResults = [example_result ''a'' 0.9, example_result ''b'' 0.6],
          textResults = [(example_result ''b'' 0.8)\<lparr>content := JStr ''text'', url := JStr ''u''\<rparr>,
                         example_result ''c'' 0.7],
          combinedResults = [example_result ''b'' 0.66, example_result ''a'' 0.63]\<rparr>
   \<and> passing (minScore (effective_options (Some example_options))) ''b''
        [example_result ''a'' 0.9, example_result ''b'' 0.6] \<noteq> []
   \<and> passing (minScore (effective_options (Some example_options))) ''b''
        [(example_result ''b'' 0.8)\<lparr>content := JStr ''text'', url := JStr ''u''\<rparr>,
         example_result ''c'' 0.7] \<noteq> []
   \<and> example_result ''b'' 0.66 = (example_result ''b'' 0.6)\<lparr>score := 0.6 * 0.7 + 0.8 * 0.3\<rparr>"
proof -
  let ?t = "(example_result ''b'' 0.8)\<lparr>content := JStr ''text'', url := JStr ''u''\<rparr>"
  let ?r = "\<lparr>vectorResults = [example_result ''a'' 0.9, example_result ''b'' 0.6],
             textResults = [?t, example_result ''c'' 0.7],
             combinedResults = [example_result ''b'' 0.66, example_result ''a'' 0.63]\<rparr>"
  let ?o = "Some example_options"
  have h1: "snd (search (example_env (Inr [1]) (Inr [example_match ''a'' 0.9, example_match ''b'' 0.6])
                  (Inr [?t, example_result ''c'' 0.7]))
          ''database indexing'' (Some 2) None ?o) = Inr ?r"
    by (simp add: search_defs fusion_defs example_defs)
  have h2: "passing (minScore (effective_options ?o)) ''b'' (vectorResults ?r) \<noteq> []"
    by (simp add: passing_def effective_options_def example_defs)
  have h3: "passing (minScore (effective_options ?o)) ''b'' (textResults ?r) \<noteq> []"
    by (simp add: passing_def effective_options_def example_defs)
  have "\<forall>e \<in> set (combinedResults ?r). id_sr e = ''b'' \<longrightarrow>
          e = (last (passing (minScore (effective_options ?o)) ''b'' (vectorResults ?r)))
                \<lparr>score :=
                   score (last (passing (minScore (effective_options ?o)) ''b'' (vectorResults ?r)))
                     * vectorWeight (effective_options ?o)
                   + sum_list (text_terms (textWeight (effective_options ?o))
                                 (minScore (effective_options ?o)) ''b'' (textResults ?r))\<rparr>"
    using fused_entry_fields_from_vector_leg [OF h1 h2 h3] by blast
  then have "example_result ''b'' 0.66 = (example_result ''b'' 0.6)\<lparr>score := 0.6 * 0.7 + 0.8 * 0.3\<rparr>"
    by (simp add: example_defs passing_def text_terms_def effective_options_def)
  with h1 h2 h3 show ?thesis by simp
qed

section \<open>Properties of \<open>search\<close> and its legs\<close>

lemma performVectorSearch_returns:
  "\<exists>vs. snd (performVectorSearch env query k fs) = Inr vs"
  by (simp add: performVectorSearch_def split: sum.splits)

lemma performTextSearch_returns:
  "\<exists>ts. snd (performTextSearch env query k fs) = Inr ts"
  by (simp add: performTextSearch_def split: sum.splits)

lemma search_text_leg:
  assumes "snd (search env query ta fs oa) = Inr r"
  shows "snd (performTextSearch env query (effective_topK ta) fs) = Inr (textResults r)"
  using assms
  by (auto simp: search_def Let_def split: prod.splits sum.splits)

lemma search_vector_leg:
  assumes "snd (search env query ta fs oa) = Inr r"
  shows "snd (performVectorSearch env query (effective_topK ta) fs) = Inr (vectorResults r)"
  using assms
  by (auto simp: search_def Let_def split: prod.splits sum.splits)

subsection \<open>Each leg fails soft\<close>

text \<open>
  C2. \<open>search\<close> always returns a result. If the text search raises an error, the
  result has \<open>textResults = []\<close> and \<open>combinedResults\<close> is the fusion of the vector leg
  alone; if the embedding call or the vector query raises an error, the result has
  \<open>vectorResults = []\<close> and \<open>combinedResults\<close> is the fusion of the text leg alone. A leg
  that succeeds hands its results over unchanged, whatever the other leg does.
\<close>

theorem legs_fail_soft:
  "\<exists>r. snd (search env query ta fs oa) = Inr r
     \<and> (\<forall>err. searchText env query (effective_topK ta) fs = Inl err \<longrightarrow>
          textResults r = []
          \<and> combinedResults r =
              slice0 (combineResults (vectorResults r) []
                        (vectorWeight (effective_options oa)) (textWeight (effective_options oa))
                        (minScore (effective_options oa)))
                (effective_topK ta))
     \<and> (\<forall>err. generateEmbedding env query = Inl err
              \<or> (\<exists>emb. generateEmbedding env query = Inr emb
                    \<and> vectorStore_query env emb (effective_topK ta) fs = Inl err) \<longrightarrow>
          vectorResults r = []
          \<and> combinedResults r =
              slice0 (combineResults [] (textResults r)
                        (vectorWeight (effective_options oa)) (textWeight (effective_options oa))
                        (minScore (effective_options oa)))
                (effective_topK ta))
     \<and> (\<forall>ts. searchText env query (effective_topK ta) fs = Inr ts \<longrightarrow> textResults r = ts)
     \<and> (\<forall>emb ms. generateEmbedding env query = Inr emb
              \<and> vectorStore_query env emb (effective_topK ta) fs = Inr ms \<longrightarrow>
          vectorResults r = map to_search_result ms)"
proof -
  obtain r where r: "snd (search env query ta fs oa) = Inr r"
    using search_returns [of env query ta fs oa] by blast
  note c = search_combined [OF r]
  have t: "snd (performTextSearch env query (effective_topK ta) fs) = Inr (textResults r)"
    by (rule search_text_leg [OF r])
  have v: "snd (performVectorSearch env query (effective_topK ta) fs) = Inr (vectorResults r)"
    by (rule search_vector_leg [OF r])
  have t_fail: "textResults r = []"
    if "searchText env query (effective_topK ta) fs = Inl err" for err
    using t that by (simp add: performTextSearch_def)
  have t_ok: "textResults r = ts"
    if "searchText env query (effective_topK ta) fs = Inr ts" for ts
    using t that by (simp add: performTextSearch_def)
  have v_fail: "vectorResults r = []"
    if "generateEmbedding env query = Inl err
        \<or> (\<exists>emb. generateEmbedding env query = Inr emb
              \<and> vectorStore_query env emb (effective_topK ta) fs = Inl err)" for err
    using v that by (auto simp: performVectorSearch_def)
  have v_ok: "vectorResults r = map to_search_result ms"
    if "generateEmbedding env query = Inr emb
        \<and> vectorStore_query env emb (effective_topK ta) fs = Inr ms" for emb ms
    using v that by (auto simp: performVectorSearch_def)
  show ?thesis
  proof (intro exI [of _ r] conjI allI impI)
    show "snd (search env query ta fs oa) = Inr r" by (rule r)
  next
    fix err assume "searchText env query (effective_topK ta) fs = Inl err"
    then show "textResults r = []" by (rule t_fail)
  next
    fix err assume "searchText env query (effective_topK ta) fs = Inl err"
    then have "textResults r = []" by (rule t_fail)
    with c show "combinedResults r =
              slice0 (combineResults (vectorResults r) []
                        (vectorWeight (effective_options oa)) (textWeight (effective_options oa))
                        (minScore (effective_options oa)))
                (effective_topK ta)" by simp
  next
    fix err assume "generateEmbedding env query = Inl err
              \<or> (\<exists>emb. generateEmbedding env query = Inr emb
                    \<and> vectorStore_query env emb (effective_topK ta) fs = Inl err)"
    then show "vectorResults r = []" by (rule v_fail)
  next
    fix err assume "generateEmbedding env query = Inl err
              \<or> (\<exists>emb. generateEmbedding env query = Inr emb
                    \<and> vectorStore_query env emb (effective_topK ta) fs = Inl err)"
    then have "vectorResults r = []" by (rule v_fail)
    with c show "combinedResults r =
              slice0 (combineResults [] (textResults r)
                        (vectorWeight (effective_options oa)) (textWeight (effective_options oa))
                        (minScore (effective_options oa)))
                (effective_topK ta)" by simp
  next
    fix ts assume "searchText env query (effective_topK ta) fs = Inr ts"
    then show "textResults r = ts" by (rule t_ok)
  next
    fix emb ms assume "generateEmbedding env query = Inr emb
              \<and> vectorStore_query env emb (effective_topK ta) fs = Inr ms"
    then show "vectorResults r = map to_search_result ms" by (rule v_ok)
  qed
qed

theorem legs_fail_soft_witness:
  "searchText (example_env (Inr [1]) (Inr [example_match ''a'' 0.9, example_match ''b'' 0.6])
                 (Inl (BackendError ''text index unreachable'')))
     ''database indexing'' (effective_topK (Some 2)) None =
     Inl (BackendError ''text index unreachable'')
   \<and> snd (search (example_env (Inr [1]) (Inr [example_match ''a'' 0.9, example_match ''b'' 0.6])
                    (Inl (BackendError ''text index unreachable'')))
            ''database indexing'' (Some 2) None None) =
       Inr \<lparr>vectorResults = [example_result ''a'' 0.9, example_result ''b'' 0.6],
            textResults = [],
            combinedResults = [example_result ''a'' 0.63, example_result ''b'' 0.42]\<rparr>
   \<and> generateEmbedding (example_env (Inl (BackendError ''embedding provider unreachable''))
                          (Inr [example_match ''a'' 0.9])
                          (Inr [example_result ''b'' 0.8, example_result ''c'' 0.7]))
       ''database indexing'' = Inl (BackendError ''embedding provider unreachable'')
   \<and> snd (search (example_env (Inl (BackendError ''embedding provider unreachable''))
                    (Inr [example_match ''a'' 0.9])
                    (Inr [example_result ''b'' 0.8, example_result ''c'' 0.7]))
            ''database indexing'' (Some 2) None None) =
       Inr \<lparr>vectorResults = [],
            textResults = [example_result ''b'' 0.8, example_result ''c'' 0.7],
            combinedResults = [example_result ''b'' 0.24, example_result ''c'' 0.21]\<rparr>"
proof -
  let ?e1 = "example_env (Inr [1]) (Inr [example_match ''a'' 0.9, example_match ''b'' 0.6])
               (Inl (BackendError ''text index unreachable''))"
  let ?e2 = "example_env (Inl (BackendError ''embedding provider unreachable''))
               (Inr [example_match ''a'' 0.9])
               (Inr [example_result ''b'' 0.8, example_result ''c'' 0.7])"
  have t: "searchText ?e1 ''database indexing'' (effective_topK (Some 2)) None =
             Inl (BackendError ''text index unreachable'')"
    by (simp add: example_env_def)
  have g: "generateEmbedding ?e2 ''database indexing'' =
             Inl (BackendError ''embedding provider unreachable'')"
    by (simp add: example_env_def)
  obtain r1 where r1: "snd (search ?e1 ''database indexing'' (Some 2) None None) = Inr r1"
      and t1: "textResults r1 = []"
    using legs_fail_soft [of ?e1 "''database indexing''" "Some 2" None None] t by blast
  obtain r2 where r2: "snd (search ?e2 ''database indexing'' (Some 2) None None) = Inr r2"
      and v2: "vectorResults r2 = []"
    using legs_fail_soft [of ?e2 "''database indexing''" "Some 2" None None] g by blast
  have c1: "snd (search ?e1 ''database indexing'' (Some 2) None None) =
       Inr \<lparr>vectorResults = [example_result ''a'' 0.9, example_result ''b'' 0.6],
            textResults = [],
            combinedResults = [example_result ''a'' 0.63, example_result ''b'' 0.42]\<rparr>"
    by (simp add: search_defs fusion_defs example_defs)
  have c2: "snd (search ?e2 ''database indexing'' (Some 2) None None) =
       Inr \<lparr>vectorResults = [],
            textResults = [example_result ''b'' 0.8, example_result ''c'' 0.7],
            combinedResults = [example_result ''b'' 0.24, example_result ''c'' 0.21]\<rparr>"
    by (simp add: search_defs fusion_defs example_defs)
  from t g c1 c2 r1 t1 r2 v2 show ?thesis by simp
qed

subsection \<open>No validation of the query or of \<open>topK\<close>\<close>

text \<open>
  An empty query with \<open>topK = 0\<close>: the embedding call, the vector query and the text
  search are all dispatched, and the call returns a result, with nothing in
  \<open>combinedResults\<close>.
\<close>

theorem search_empty_query_counterexample:
  "search (example_env (Inr [1]) (Inr [example_match ''a'' 0.9]) (Inr []))
     [] (Some 0) None None =
     ([EmbeddingCall [], VectorQueryCall [1] 0 None, TextSearchCall [] 0 None],
      Inr \<lparr>vectorResults = [example_result ''a'' 0.9],
           textResults = [],
           combinedResults = []\<rparr>)"
  by (simp add: search_defs fusion_defs example_defs)

text \<open>
  C5, amended. \<open>search\<close> does not validate its input. For every query, empty or not,
  and every \<open>topK\<close>, positive or not, it dispatches the embedding call and the text
  search with the query and \<open>topK\<close> as given and returns a result, never an error. The
  fused list is cut by \<open>slice(0, topK)\<close>: \<open>combinedResults\<close> is empty when \<open>topK = 0\<close>,
  and for a negative \<open>topK\<close> it is the fused list without its last \<open>-topK\<close> entries.
\<close>

theorem search_never_rejects:
  "\<exists>r. snd (search env query ta fs oa) = Inr r
     \<and> EmbeddingCall query \<in> set (fst (search env query ta fs oa))
     \<and> TextSearchCall query (effective_topK ta) fs \<in> set (fst (search env query ta fs oa))
     \<and> (effective_topK ta = 0 \<longrightarrow> combinedResults r = [])
     \<and> (effective_topK ta < 0 \<longrightarrow>
          combinedResults r =
            butlast_n (nat (- effective_topK ta))
              (combineResults (vectorResults r) (textResults r)
                 (vectorWeight (effective_options oa)) (textWeight (effective_options oa))
                 (minScore (effective_options oa))))"
proof -
  obtain r where r: "snd (search env query ta fs oa) = Inr r"
    using search_returns [of env query ta fs oa] by blast
  note c = search_combined [OF r]
  have e: "EmbeddingCall query \<in> set (fst (search env query ta fs oa))"
    by (simp add: search_def performVectorSearch_def Let_def split: prod.splits sum.splits)
  have t: "TextSearchCall query (effective_topK ta) fs \<in> set (fst (search env query ta fs oa))"
    by (auto simp add: search_def performTextSearch_def Let_def split: prod.splits sum.splits)
  have z: "combinedResults r = []" if "effective_topK ta = 0"
    using c that by (simp add: slice0_def)
  have n: "combinedResults r =
            butlast_n (nat (- effective_topK ta))
              (combineResults (vectorResults r) (textResults r)
                 (vectorWeight (effective_options oa)) (textWeight (effective_options oa))
                 (minScore (effective_options oa)))" if "effective_topK ta < 0"
  proof -
    have "nat (int (length xs) + effective_topK ta) = length xs - nat (- effective_topK ta)"
      for xs :: "SearchResult list"
      using that by linarith
    then show ?thesis using c that by (simp add: slice0_def butlast_n_def)
  qed
  show ?thesis using r e t z n by blast
qed

theorem search_never_rejects_witness:
  "effective_topK (Some 0) = 0 \<and> effective_topK (Some (- 1)) < 0
   \<and> snd (search (example_env (Inr [1]) (Inr [example_match ''a'' 0.9, example_match ''b'' 0.6]) (Inr []))
            [] (Some 0) None None) =
       Inr \<lparr>vectorResults = [example_result ''a'' 0.9, example_result ''b'' 0.6],
            textResults = [], combinedResults = []\<rparr>
   \<and> snd (search (example_env (Inr [1]) (Inr [example_match ''a'' 0.9, example_match ''b'' 0.6]) (Inr []))
            [] (Some (- 1)) None None) =
       Inr \<lparr>vectorResults = [example_result ''a'' 0.9, example_result ''b'' 0.6],
            textResults = [], combinedResults = [example_result ''a'' 0.63]\<rparr>
   \<and> butlast_n (nat (- effective_topK (Some (- 1))))
        (combineResults [example_result ''a'' 0.9, example_result ''b'' 0.6] [] 0.7 0.3 0.5) =
       [example_result ''a'' 0.63]"
proof -
  let ?e = "example_env (Inr [1]) (Inr [example_match ''a'' 0.9, example_match ''b'' 0.6]) (Inr [])"
  have k0: "effective_topK (Some 0) = 0" and k1: "effective_topK (Some (- 1)) < 0"
    by (simp_all add: effective_topK_def)
  have c0: "snd (search ?e [] (Some 0) None None) =
       Inr \<lparr>vectorResults = [example_result ''a'' 0.9, example_result ''b'' 0.6],
            textResults = [], combinedResults = []\<rparr>"
    by (simp add: search_defs fusion_defs example_defs)
  have c1: "snd (search ?e [] (Some (- 1)) None None) =
       Inr \<lparr>vectorResults = [example_result ''a'' 0.9, example_result ''b'' 0.6],
            textResults = [], combinedResults = [example_result ''a'' 0.63]\<rparr>"
    by (simp add: search_defs fusion_defs example_defs)
  obtain r0 where "snd (search ?e [] (Some 0) None None) = Inr r0" "combinedResults r0 = []"
    using search_never_rejects [of ?e "[]" "Some 0" None None] k0 by blast
  obtain r1 where r1: "snd (search ?e [] (Some (- 1)) None None) = Inr r1"
    and b1: "combinedResults r1 =
            butlast_n (nat (- effective_topK (Some (- 1))))
              (combineResults (vectorResults r1) (textResults r1)
                 (vectorWeight (effective_options None)) (textWeight (effective_options None))
                 (minScore (effective_options None)))"
    using search_never_rejects [of ?e "[]" "Some (- 1)" None None] k1 by blast
  from r1 c1 b1 have "butlast_n (nat (- effective_topK (Some (- 1))))
        (combineResults [example_result ''a'' 0.9, example_result ''b'' 0.6] [] 0.7 0.3 0.5) =
       [example_result ''a'' 0.63]"
    by (simp add: effective_options_def)
  with k0 k1 c0 c1 show ?thesis by simp
qed

section \<open>Fusion over the store: what is written\<close>

lemma abs_map_alloc:
  "list_all (\<lambda>p. snd p < length h) m \<Longrightarrow>
   abs_map (h @ [v]) (AList.update k (length h) m) = AList.update k v (abs_map h m)"
  by (induction m) (auto simp: abs_map_def nth_append list_all_iff)

lemma abs_map_write:
  "map_of m k = Some a \<Longrightarrow> distinct (map snd m) \<Longrightarrow> list_all (\<lambda>p. snd p < length h) m \<Longrightarrow>
   abs_map (h[a := v]) m = AList.update k v (abs_map h m)"
proof (induction m)
  case Nil
  then show ?case by simp
next
  case (Cons p m)
  show ?case
  proof (cases "fst p = k")
    case True
    then have a: "snd p = a" using Cons.prems(1) by (cases p) simp
    have "a \<notin> snd ` set m" using Cons.prems(2) a by auto
    then have "map (\<lambda>p. (fst p, h[a := v] ! snd p)) m = map (\<lambda>p. (fst p, h ! snd p)) m"
      by (intro map_cong) (auto simp: image_iff)
    then show ?thesis using True a Cons.prems(3) by (cases p) (simp add: abs_map_def)
  next
    case False
    then have m: "map_of m k = Some a" using Cons.prems(1) by (cases p) auto
    then have "a \<in> snd ` set m" by (metis map_of_SomeD image_eqI snd_conv)
    then have "snd p \<noteq> a" using Cons.prems(2) by auto
    moreover have "abs_map (h[a := v]) m = AList.update k v (abs_map h m)"
      using Cons.IH [OF m] Cons.prems by simp
    ultimately show ?thesis using False by (cases p) (simp add: abs_map_def)
  qed
qed

lemma map_of_abs_map: "map_of (abs_map h m) k = map_option (\<lambda>a. h ! a) (map_of m k)"
  by (induction m) (auto simp: abs_map_def)

lemma list_all_update:
  "list_all P m \<Longrightarrow> P (k, a) \<Longrightarrow> list_all P (AList.update k a m)"
  by (induction m) auto

lemma snd_set_update: "snd ` set (AList.update k a m) \<subseteq> insert a (snd ` set m)"
  by (induction m) auto

lemma distinct_snd_update:
  "distinct (map snd m) \<Longrightarrow> a \<notin> snd ` set m \<Longrightarrow> distinct (map snd (AList.update k a m))"
proof (induction m)
  case Nil
  then show ?case by simp
next
  case (Cons p m)
  then show ?case using snd_set_update [of k a m] by (cases p) auto
qed

lemma store_inv_read:
  "store_inv h0 st \<Longrightarrow> a < length h0 \<Longrightarrow> fst st ! a = h0 ! a"
  unfolding store_inv_def by (metis nth_take)

lemma fresh_not_in_map:
  "list_all (\<lambda>p. length h0 \<le> snd p \<and> snd p < length h) m \<Longrightarrow> length h \<notin> snd ` set m"
  by (auto simp: list_all_iff)

lemma add_vector_result_h_step:
  assumes "store_inv h0 st" and "a < length h0"
  shows "store_inv h0 (add_vector_result_h vw ms st a)
       \<and> abs_map (fst (add_vector_result_h vw ms st a)) (snd (add_vector_result_h vw ms st a)) =
           add_vector_result vw ms (abs_map (fst st) (snd st)) (h0 ! a)"
proof -
  obtain h m where st: "st = (h, m)" by (cases st)
  have r: "h ! a = h0 ! a" using store_inv_read [OF assms] st by simp
  have i: "length h0 \<le> length h" "take (length h0) h = h0"
    "list_all (\<lambda>p. length h0 \<le> snd p \<and> snd p < length h) m" "distinct (map snd m)"
    using assms(1) st by (simp_all add: store_inv_def)
  show ?thesis
  proof (cases "ms \<le> score (h0 ! a)")
    case False
    then show ?thesis
      using assms(1) st r by (simp add: add_vector_result_h_def add_vector_result_def Let_def)
  next
    case True
    let ?v = "(h0 ! a)\<lparr>score := score (h0 ! a) * vw\<rparr>"
    have s: "add_vector_result_h vw ms st a = (h @ [?v], AList.update (id_sr (h0 ! a)) (length h) m)"
      using True st r by (simp add: add_vector_result_h_def alloc_def Let_def)
    have l: "list_all (\<lambda>p. snd p < length h) m" using i(3) by (auto simp: list_all_iff)
    have inv: "store_inv h0 (h @ [?v], AList.update (id_sr (h0 ! a)) (length h) m)"
      unfolding store_inv_def
    proof (intro conjI)
      show "length h0 \<le> length (fst (h @ [?v], AList.update (id_sr (h0 ! a)) (length h) m))"
        using i(1) by simp
      show "take (length h0) (fst (h @ [?v], AList.update (id_sr (h0 ! a)) (length h) m)) = h0"
        using i(1,2) by simp
      have "list_all (\<lambda>p. length h0 \<le> snd p \<and> snd p < length (h @ [?v])) m"
        using i(3) by (auto simp: list_all_iff)
      then show "list_all (\<lambda>p. length h0 \<le> snd p
                    \<and> snd p < length (fst (h @ [?v], AList.update (id_sr (h0 ! a)) (length h) m)))
               (snd (h @ [?v], AList.update (id_sr (h0 ! a)) (length h) m))"
        using i(1) by (simp add: list_all_update)
      show "distinct (map snd (snd (h @ [?v], AList.update (id_sr (h0 ! a)) (length h) m)))"
        using distinct_snd_update [OF i(4) fresh_not_in_map [OF i(3)]] by simp
    qed
    have "abs_map (h @ [?v]) (AList.update (id_sr (h0 ! a)) (length h) m) =
            add_vector_result vw ms (abs_map h m) (h0 ! a)"
      using True abs_map_alloc [OF l] by (simp add: add_vector_result_def map_set_def)
    then show ?thesis using s inv st by simp
  qed
qed

lemma add_text_result_h_step:
  assumes "store_inv h0 st" and "a < length h0"
  shows "store_inv h0 (add_text_result_h tw ms st a)
       \<and> abs_map (fst (add_text_result_h tw ms st a)) (snd (add_text_result_h tw ms st a)) =
           add_text_result tw ms (abs_map (fst st) (snd st)) (h0 ! a)"
proof -
  obtain h m where st: "st = (h, m)" by (cases st)
  have r: "h ! a = h0 ! a" using store_inv_read [OF assms] st by simp
  have i: "length h0 \<le> length h" "take (length h0) h = h0"
    "list_all (\<lambda>p. length h0 \<le> snd p \<and> snd p < length h) m" "distinct (map snd m)"
    using assms(1) st by (simp_all add: store_inv_def)
  have l: "list_all (\<lambda>p. snd p < length h) m" using i(3) by (auto simp: list_all_iff)
  show ?thesis
  proof (cases "ms \<le> score (h0 ! a)")
    case False
    then show ?thesis
      using assms(1) st r by (simp add: add_text_result_h_def add_text_result_def Let_def)
  next
    case True
    show ?thesis
    proof (cases "map_of m (id_sr (h0 ! a))")
      case None
      let ?v = "(h0 ! a)\<lparr>score := score (h0 ! a) * tw\<rparr>"
      have s: "add_text_result_h tw ms st a = (h @ [?v], AList.update (id_sr (h0 ! a)) (length h) m)"
        using True None st r by (simp add: add_text_result_h_def alloc_def Let_def)
      have inv: "store_inv h0 (h @ [?v], AList.update (id_sr (h0 ! a)) (length h) m)"
        unfolding store_inv_def
      proof (intro conjI)
        show "length h0 \<le> length (fst (h @ [?v], AList.update (id_sr (h0 ! a)) (length h) m))"
          using i(1) by simp
        show "take (length h0) (fst (h @ [?v], AList.update (id_sr (h0 ! a)) (length h) m)) = h0"
          using i(1,2) by simp
        have "list_all (\<lambda>p. length h0 \<le> snd p \<and> snd p < length (h @ [?v])) m"
          using i(3) by (auto simp: list_all_iff)
        then show "list_all (\<lambda>p. length h0 \<le> snd p
                      \<and> snd p < length (fst (h @ [?v], AList.update (id_sr (h0 ! a)) (length h) m)))
                 (snd (h @ [?v], AList.update (id_sr (h0 ! a)) (length h) m))"
          using i(1) by (simp add: list_all_update)
        show "distinct (map snd (snd (h @ [?v], AList.update (id_sr (h0 ! a)) (length h) m)))"
          using distinct_snd_update [OF i(4) fresh_not_in_map [OF i(3)]] by simp
      qed
      have "map_of (abs_map h m) (id_sr (h0 ! a)) = None"
        using None by (simp add: map_of_abs_map)
      then have "abs_map (h @ [?v]) (AList.update (id_sr (h0 ! a)) (length h) m) =
              add_text_result tw ms (abs_map h m) (h0 ! a)"
        using True abs_map_alloc [OF l]
        by (simp add: add_text_result_def map_set_def map_get_def)
      then show ?thesis using s inv st by simp
    next
      case (Some ex)
      let ?v = "(h ! ex)\<lparr>score := score (h ! ex) + score (h0 ! a) * tw\<rparr>"
      have s: "add_text_result_h tw ms st a = (h[ex := ?v], m)"
        using True Some st r by (simp add: add_text_result_h_def Let_def)
      have "(id_sr (h0 ! a), ex) \<in> set m" using Some by (rule map_of_SomeD)
      then have e: "length h0 \<le> ex" "ex < length h" using i(3) by (auto simp: list_all_iff)
      have inv: "store_inv h0 (h[ex := ?v], m)"
        using i e by (simp add: store_inv_def take_update_cancel)
      have "map_of (abs_map h m) (id_sr (h0 ! a)) = Some (h ! ex)"
        using Some by (simp add: map_of_abs_map)
      then have "abs_map (h[ex := ?v]) m = add_text_result tw ms (abs_map h m) (h0 ! a)"
        using True abs_map_write [OF Some i(4) l]
        by (simp add: add_text_result_def map_set_def map_get_def)
      then show ?thesis using s inv st by simp
    qed
  qed
qed


lemma foldl_add_vector_result_h:
  assumes "store_inv h0 st" and "list_all (\<lambda>a. a < length h0) as"
  shows "store_inv h0 (foldl (add_vector_result_h vw ms) st as)
       \<and> abs_map (fst (foldl (add_vector_result_h vw ms) st as))
                 (snd (foldl (add_vector_result_h vw ms) st as)) =
           foldl (add_vector_result vw ms) (abs_map (fst st) (snd st)) (map (\<lambda>a. h0 ! a) as)"
  using assms
proof (induction as arbitrary: st)
  case Nil
  then show ?case by simp
next
  case (Cons a as)
  have a: "a < length h0" and as: "list_all (\<lambda>a. a < length h0) as"
    using Cons.prems(2) by simp_all
  note step = add_vector_result_h_step [OF Cons.prems(1) a, of vw ms]
  from Cons.IH [OF conjunct1 [OF step] as] step show ?case by simp
qed

lemma foldl_add_text_result_h:
  assumes "store_inv h0 st" and "list_all (\<lambda>a. a < length h0) as"
  shows "store_inv h0 (foldl (add_text_result_h tw ms) st as)
       \<and> abs_map (fst (foldl (add_text_result_h tw ms) st as))
                 (snd (foldl (add_text_result_h tw ms) st as)) =
           foldl (add_text_result tw ms) (abs_map (fst st) (snd st)) (map (\<lambda>a. h0 ! a) as)"
  using assms
proof (induction as arbitrary: st)
  case Nil
  then show ?case by simp
next
  case (Cons a as)
  have a: "a < length h0" and as: "list_all (\<lambda>a. a < length h0) as"
    using Cons.prems(2) by simp_all
  note step = add_text_result_h_step [OF Cons.prems(1) a, of tw ms]
  from Cons.IH [OF conjunct1 [OF step] as] step show ?case by simp
qed

lemma map_insort_key:
  "map g (insort_key (\<lambda>x. f (g x)) x xs) = insort_key f (g x) (map g xs)"
  by (induction xs) simp_all

lemma map_sort_key:
  "map g (sort_key (\<lambda>x. f (g x)) xs) = sort_key f (map g xs)"
  by (induction xs) (simp_all add: map_insort_key)

lemma combineResults_h_refines:
  assumes "valid_refs h vs" and "valid_refs h ts"
  shows "take (length h) (fst (combineResults_h h vs ts vw tw ms)) = h
       \<and> length h \<le> length (fst (combineResults_h h vs ts vw tw ms))
       \<and> deref (fst (combineResults_h h vs ts vw tw ms)) (snd (combineResults_h h vs ts vw tw ms)) =
           combineResults (deref h vs) (deref h ts) vw tw ms"
proof -
  let ?s1 = "foldl (add_vector_result_h vw ms) (h, []) vs"
  let ?s2 = "foldl (add_text_result_h tw ms) ?s1 ts"
  have i0: "store_inv h (h, [])" by (simp add: store_inv_def)
  have v: "list_all (\<lambda>a. a < length h) vs" and t: "list_all (\<lambda>a. a < length h) ts"
    using assms by (simp_all add: valid_refs_def)
  note f1 = foldl_add_vector_result_h [OF i0 v, of vw ms]
  note f2 = foldl_add_text_result_h [OF conjunct1 [OF f1] t, of tw ms]
  have a: "abs_map (fst ?s2) (snd ?s2) = fuse (deref h vs) (deref h ts) vw tw ms"
    using f1 f2 by (simp add: fuse_def deref_def abs_map_def)
  have "deref (fst ?s2) (sort_key (\<lambda>a. - score (fst ?s2 ! a)) (map snd (snd ?s2))) =
          sort_key (\<lambda>r. - score r) (map (\<lambda>a. fst ?s2 ! a) (map snd (snd ?s2)))"
    unfolding deref_def by (rule map_sort_key)
  also have "map (\<lambda>a. fst ?s2 ! a) (map snd (snd ?s2)) = map snd (abs_map (fst ?s2) (snd ?s2))"
    by (simp add: abs_map_def comp_def)
  finally have "deref (fst ?s2) (sort_key (\<lambda>a. - score (fst ?s2 ! a)) (map snd (snd ?s2))) =
          combineResults (deref h vs) (deref h ts) vw tw ms"
    using a by (simp add: combineResults_def sort_by_score_desc_def map_values_def)
  moreover have "take (length h) (fst ?s2) = h" "length h \<le> length (fst ?s2)"
    using conjunct1 [OF f2] by (simp_all add: store_inv_def)
  ultimately show ?thesis by (simp add: combineResults_h_def Let_def)
qed

lemma deref_unchanged:
  assumes "take (length h) h' = h" and "length h \<le> length h'" and "valid_refs h as"
  shows "deref h' as = deref h as"
proof -
  have "h' ! a = h ! a" if "a < length h" for a
    using assms(1) that by (metis nth_take)
  then show ?thesis using assms(3) by (auto simp: deref_def valid_refs_def list_all_iff)
qed


lemma deref_slice0: "deref h (slice0 as k) = slice0 (deref h as) k"
  by (simp add: deref_def slice0_def take_map)

text \<open>
  C9. The arrays \<open>vectorResults\<close> and \<open>textResults\<close> that \<open>search\<close> returns are the
  arrays it passed to fusion, and fusion writes to none of their objects: it copies a
  result before it weights the score, and \<open>existing.score += ...\<close> writes into such a
  copy. Every object of the store before fusion is the same after it, so the two lists
  read after the call carry the native scores and fields they had before, while the
  fused list read after the call is the fusion of those native results, cut to \<open>topK\<close>.
\<close>

theorem fusion_never_writes_leg_results:
  assumes "valid_refs h vs" and "valid_refs h ts"
  shows "\<exists>h' r. search_fuse_h h vs ts topK opts = (h', r)
           \<and> vectorResults_h r = vs \<and> textResults_h r = ts
           \<and> take (length h) h' = h
           \<and> deref h' (vectorResults_h r) = deref h vs
           \<and> deref h' (textResults_h r) = deref h ts
           \<and> deref h' (combinedResults_h r) =
               slice0 (combineResults (deref h vs) (deref h ts)
                         (vectorWeight opts) (textWeight opts) (minScore opts)) topK"
proof -
  obtain h' out where c: "combineResults_h h vs ts (vectorWeight opts) (textWeight opts)
                            (minScore opts) = (h', out)"
    by (cases "combineResults_h h vs ts (vectorWeight opts) (textWeight opts) (minScore opts)")
  note r = combineResults_h_refines [OF assms, of "vectorWeight opts" "textWeight opts" "minScore opts"]
  have t: "take (length h) h' = h" and l: "length h \<le> length h'"
    and d: "deref h' out = combineResults (deref h vs) (deref h ts)
                             (vectorWeight opts) (textWeight opts) (minScore opts)"
    using r c by simp_all
  have s: "search_fuse_h h vs ts topK opts =
             (h', \<lparr>vectorResults_h = vs, textResults_h = ts,
                   combinedResults_h = slice0 out topK\<rparr>)"
    using c by (simp add: search_fuse_h_def)
  show ?thesis
    using s t d deref_unchanged [OF t l assms(1)] deref_unchanged [OF t l assms(2)]
    by (simp add: deref_slice0)
qed


theorem fusion_never_writes_leg_results_witness:
  "valid_refs [example_result ''a'' 0.9, example_result ''b'' 0.6,
               example_result ''b'' 0.8, example_result ''c'' 0.7] [0, 1]
   \<and> valid_refs [example_result ''a'' 0.9, example_result ''b'' 0.6,
                 example_result ''b'' 0.8, example_result ''c'' 0.7] [2, 3]
   \<and> search_fuse_h [example_result ''a'' 0.9, example_result ''b'' 0.6,
                     example_result ''b'' 0.8, example_result ''c'' 0.7] [0, 1] [2, 3] 2
        example_options =
       ([example_result ''a'' 0.9, example_result ''b'' 0.6,
         example_result ''b'' 0.8, example_result ''c'' 0.7,
         example_result ''a'' 0.63, example_result ''b'' 0.66, example_result ''c'' 0.21],
        \<lparr>vectorResults_h = [0, 1], textResults_h = [2, 3], combinedResults_h = [5, 4]\<rparr>)
   \<and> deref [example_result ''a'' 0.9, example_result ''b'' 0.6,
             example_result ''b'' 0.8, example_result ''c'' 0.7,
             example_result ''a'' 0.63, example_result ''b'' 0.66, example_result ''c'' 0.21] [0, 1] =
       deref [example_result ''a'' 0.9, example_result ''b'' 0.6,
              example_result ''b'' 0.8, example_result ''c'' 0.7] [0, 1]"
proof -
  let ?h = "[example_result ''a'' 0.9, example_result ''b'' 0.6,
             example_result ''b'' 0.8, example_result ''c'' 0.7]"
  have v: "valid_refs ?h [0, 1]" and t: "valid_refs ?h [2, 3]"
    by (simp_all add: valid_refs_def)
  have s: "search_fuse_h ?h [0, 1] [2, 3] 2 example_options =
       (?h @ [example_result ''a'' 0.63, example_result ''b'' 0.66, example_result ''c'' 0.21],
        \<lparr>vectorResults_h = [0, 1], textResults_h = [2, 3], combinedResults_h = [5, 4]\<rparr>)"
    by (simp add: search_fuse_h_def combineResults_h_def add_vector_result_h_def
          add_text_result_h_def alloc_def Let_def slice0_def example_defs)
  from fusion_never_writes_leg_results [OF v t, of 2 example_options] s
  have "deref (?h @ [example_result ''a'' 0.63, example_result ''b'' 0.66,
                     example_result ''c'' 0.21]) [0, 1] = deref ?h [0, 1]"
    by auto
  with v t s show ?thesis by simp
qed

section \<open>Properties of the vector store\<close>

lemma replaceOne_upsert_member: "doc \<in> set (replaceOne_upsert ds doc)"
  by (induction ds) auto

lemma replaceOne_upsert_subset: "set (replaceOne_upsert ds doc) \<subseteq> insert doc (set ds)"
  by (induction ds) auto

lemma replaceOne_upsert_keeps:
  "d \<in> set ds \<Longrightarrow> doc_id d \<noteq> doc_id doc \<Longrightarrow> d \<in> set (replaceOne_upsert ds doc)"
  by (induction ds) auto

lemma replaceOne_upsert_ids:
  "doc_id ` set (replaceOne_upsert ds doc) = insert (doc_id doc) (doc_id ` set ds)"
  by (induction ds) auto

lemma replaceOne_upsert_distinct:
  "distinct (map doc_id ds) \<Longrightarrow> distinct (map doc_id (replaceOne_upsert ds doc))"
  by (induction ds) (auto simp: replaceOne_upsert_ids)

lemma foldl_replaceOne_upsert_subset:
  "set (foldl replaceOne_upsert ds ops) \<subseteq> set ds \<union> set ops"
proof (induction ops arbitrary: ds)
  case Nil
  then show ?case by simp
next
  case (Cons doc ops)
  have "set (foldl replaceOne_upsert (replaceOne_upsert ds doc) ops)
          \<subseteq> set (replaceOne_upsert ds doc) \<union> set ops"
    by (rule Cons.IH)
  then show ?case using replaceOne_upsert_subset [of ds doc] by auto
qed

lemma foldl_replaceOne_upsert_written:
  "doc \<in> set ops \<Longrightarrow>
   \<exists>d \<in> set (foldl replaceOne_upsert ds ops). doc_id d = doc_id doc \<and> d \<in> set ops"
proof (induction ops arbitrary: ds rule: rev_induct)
  case Nil
  then show ?case by simp
next
  case (snoc x ops)
  let ?r = "foldl replaceOne_upsert ds ops"
  show ?case
  proof (cases "doc_id x = doc_id doc")
    case True
    then show ?thesis using replaceOne_upsert_member [of x ?r] by auto
  next
    case False
    then have "doc \<in> set ops" using snoc.prems by auto
    then obtain d where d: "d \<in> set ?r" "doc_id d = doc_id doc" "d \<in> set ops"
      using snoc.IH by blast
    then have "d \<in> set (replaceOne_upsert ?r x)"
      using False replaceOne_upsert_keeps by metis
    then show ?thesis using d by auto
  qed
qed

lemma foldl_replaceOne_upsert_distinct:
  "distinct (map doc_id ds) \<Longrightarrow> distinct (map doc_id (foldl replaceOne_upsert ds ops))"
  by (induction ops arbitrary: ds) (simp_all add: replaceOne_upsert_distinct)

lemma upsert_keeps_ids_distinct:
  "distinct (map doc_id (documents db)) \<Longrightarrow> upsert config now vectors db = Inr db' \<Longrightarrow>
   distinct (map doc_id (documents db'))"
  by (auto simp: upsert_def bulkWrite_def foldl_replaceOne_upsert_distinct split: option.splits)

lemma to_document_sel:
  "doc_id (to_document now v) = id_vd v" "embedding (to_document now v) = values_vd v"
  by (simp_all add: to_document_def)

subsection \<open>\<open>upsert\<close> and the configured dimensionality\<close>

text \<open>
  An index configured for three dimensions and a record with a vector of length two: the
  call succeeds and the vector is stored as it is.
\<close>

theorem upsert_counterexample:
  "length (values_vd (example_vector ''chunk-1'' [1, 2])) \<noteq> dimensions (example_config 3)
   \<and> stored_embeddings (upsert (example_config 3) 0 [example_vector ''chunk-1'' [1, 2]]
                           (example_database [])) = Inr [(''chunk-1'', [1, 2])]"
  by (simp add: stored_embeddings_def upsert_def bulkWrite_def to_document_def example_config_def
        example_vector_def example_database_def)

text \<open>
  C6, amended. For a batch with at least one record, \<open>upsert\<close> does not compare the length of a vector with the configured
  dimensionality: its outcome does not depend on \<open>dimensions\<close>. It fails exactly with the
  error of the bulk write; when the write succeeds, every record of the batch has a
  document under its id, each document written is \<open>to_document\<close> of a record of the
  batch, and its \<open>embedding\<close> is that record's \<open>values\<close> as given, neither truncated nor
  padded.
\<close>

theorem upsert_stores_values_as_given:
  assumes "vectors \<noteq> []"
  shows "(\<forall>err. fault db = Some err \<longrightarrow> upsert config now vectors db = Inl err)
   \<and> (fault db = None \<longrightarrow>
        (\<exists>db'. upsert config now vectors db = Inr db'
           \<and> (\<forall>v \<in> set vectors.
                 \<exists>d \<in> set (documents db'). \<exists>v' \<in> set vectors.
                   id_vd v' = id_vd v \<and> d = to_document now v' \<and> embedding d = values_vd v')
           \<and> (\<forall>d \<in> set (documents db').
                 d \<in> set (documents db) \<or> (\<exists>v \<in> set vectors. d = to_document now v))))
   \<and> upsert (config\<lparr>dimensions := n\<rparr>) now vectors db = upsert config now vectors db"
proof (intro conjI allI impI)
  fix err assume "fault db = Some err"
  then show "upsert config now vectors db = Inl err"
    by (simp add: upsert_def bulkWrite_def)
next
  assume f: "fault db = None"
  let ?ops = "map (to_document now) vectors"
  let ?db' = "db\<lparr>documents := foldl replaceOne_upsert (documents db) ?ops\<rparr>"
  have u: "upsert config now vectors db = Inr ?db'"
    using f by (simp add: upsert_def bulkWrite_def)
  have a: "\<exists>d \<in> set (documents ?db'). \<exists>v' \<in> set vectors.
             id_vd v' = id_vd v \<and> d = to_document now v' \<and> embedding d = values_vd v'"
    if "v \<in> set vectors" for v
  proof -
    have "to_document now v \<in> set ?ops" using that by simp
    from foldl_replaceOne_upsert_written [OF this, of "documents db"]
    obtain d where d: "d \<in> set (foldl replaceOne_upsert (documents db) ?ops)"
      "doc_id d = doc_id (to_document now v)" "d \<in> set ?ops" by blast
    then obtain v' where v': "v' \<in> set vectors" "d = to_document now v'" by auto
    then have "id_vd v' = id_vd v" "embedding d = values_vd v'"
      using d(2) by (simp_all add: to_document_sel)
    then show ?thesis using d(1) v' by auto
  qed
  have b: "d \<in> set (documents db) \<or> (\<exists>v \<in> set vectors. d = to_document now v)"
    if "d \<in> set (documents ?db')" for d
    using that foldl_replaceOne_upsert_subset [of "documents db" ?ops] by auto
  show "\<exists>db'. upsert config now vectors db = Inr db'
           \<and> (\<forall>v \<in> set vectors.
                 \<exists>d \<in> set (documents db'). \<exists>v' \<in> set vectors.
                   id_vd v' = id_vd v \<and> d = to_document now v' \<and> embedding d = values_vd v')
           \<and> (\<forall>d \<in> set (documents db').
                 d \<in> set (documents db) \<or> (\<exists>v \<in> set vectors. d = to_document now v))"
    using u a b by blast
next
  show "upsert (config\<lparr>dimensions := n\<rparr>) now vectors db = upsert config now vectors db"
    by (simp add: upsert_def)
qed

theorem upsert_stores_values_as_given_witness:
  "[example_vector ''chunk-1'' [1, 2]] \<noteq> []
   \<and> fault (example_database []) = None
   \<and> length (values_vd (example_vector ''chunk-1'' [1, 2])) \<noteq> dimensions (example_config 3)
   \<and> stored_embeddings (upsert (example_config 3) 0 [example_vector ''chunk-1'' [1, 2]]
                           (example_database [])) = Inr [(''chunk-1'', [1, 2])]
   \<and> fault ((example_database [])\<lparr>fault := Some (BackendError ''unreachable'')\<rparr>) =
       Some (BackendError ''unreachable'')
   \<and> upsert (example_config 3) 0 [example_vector ''chunk-1'' [1, 2]]
        ((example_database [])\<lparr>fault := Some (BackendError ''unreachable'')\<rparr>) =
       Inl (BackendError ''unreachable'')"
proof -
  let ?v = "example_vector ''chunk-1'' [1, 2]"
  let ?bad = "(example_database [])\<lparr>fault := Some (BackendError ''unreachable'')\<rparr>"
  have ne: "[?v] \<noteq> []" by simp
  have f0: "fault (example_database []) = None" by (simp add: example_database_def)
  have f1: "fault ?bad = Some (BackendError ''unreachable'')" by simp
  have l: "length (values_vd ?v) \<noteq> dimensions (example_config 3)"
    by (simp add: example_vector_def example_config_def)
  obtain db' where u: "upsert (example_config 3) 0 [?v] (example_database []) = Inr db'"
    and s: "\<forall>v \<in> set [?v]. \<exists>d \<in> set (documents db'). \<exists>v' \<in> set [?v].
              id_vd v' = id_vd v \<and> d = to_document 0 v' \<and> embedding d = values_vd v'"
    using upsert_stores_values_as_given [OF ne, of "example_database []" "example_config 3" 0] f0
    by blast
  have e: "upsert (example_config 3) 0 [?v] ?bad = Inl (BackendError ''unreachable'')"
    using upsert_stores_values_as_given [OF ne, of ?bad "example_config 3" 0] f1 by blast
  have c: "stored_embeddings (upsert (example_config 3) 0 [?v] (example_database [])) =
             Inr [(''chunk-1'', [1, 2])]"
    by (simp add: stored_embeddings_def upsert_def bulkWrite_def to_document_def
          example_config_def example_vector_def example_database_def)
  from ne f0 f1 l c e show ?thesis by simp
qed


subsection \<open>\<open>delete\<close> and the count of \<open>getStats\<close>\<close>

lemma delete_keeps_ids_distinct:
  "distinct (map doc_id (documents db)) \<Longrightarrow> delete config ids db = Inr db' \<Longrightarrow>
   distinct (map doc_id (documents db'))"
  by (auto simp: delete_def deleteMany_in_def distinct_map_filter split: option.splits)

lemma length_filter_ids:
  assumes "distinct (map doc_id ds)"
  shows "length (filter (\<lambda>d. doc_id d \<in> set ids) ds) = card (set ids \<inter> doc_id ` set ds)"
proof -
  have "distinct (map doc_id (filter (\<lambda>d. doc_id d \<in> set ids) ds))"
    using assms by (rule distinct_map_filter)
  then have "card (set (map doc_id (filter (\<lambda>d. doc_id d \<in> set ids) ds))) =
               length (map doc_id (filter (\<lambda>d. doc_id d \<in> set ids) ds))"
    by (rule distinct_card)
  moreover have "set (map doc_id (filter (\<lambda>d. doc_id d \<in> set ids) ds)) =
                   set ids \<inter> doc_id ` set ds"
    by auto
  ultimately show ?thesis by simp
qed

text \<open>
  C8. On a reachable collection \<open>delete\<close> returns without error for every list of ids.
  It removes the documents whose id is listed and no other, so \<open>totalVectors\<close> goes down
  by the number of listed ids that were present, and when none of them was present the
  store is unchanged.
\<close>

theorem delete_ignores_missing_ids:
  assumes "fault db = None" and "distinct (map doc_id (documents db))"
  shows "\<exists>db' s s'. delete config ids db = Inr db'
           \<and> getStats config db = Inr s \<and> getStats config db' = Inr s'
           \<and> totalVectors s' + card (set ids \<inter> doc_id ` set (documents db)) = totalVectors s
           \<and> set (documents db') = {d \<in> set (documents db). doc_id d \<notin> set ids}
           \<and> (set ids \<inter> doc_id ` set (documents db) = {} \<longrightarrow> db' = db)"
proof -
  let ?keep = "filter (\<lambda>d. doc_id d \<notin> set ids) (documents db)"
  let ?db' = "db\<lparr>documents := ?keep\<rparr>"
  have d: "delete config ids db = Inr ?db'"
    using assms(1) by (simp add: delete_def deleteMany_in_def)
  have s: "getStats config db =
             Inr \<lparr>totalVectors = length (documents db), dimensions_stats = dimensions config,
                  indexSize = stats_indexSize db\<rparr>"
    using assms(1) by (simp add: getStats_def countDocuments_def db_stats_def)
  have s': "getStats config ?db' =
             Inr \<lparr>totalVectors = length ?keep, dimensions_stats = dimensions config,
                  indexSize = stats_indexSize db\<rparr>"
    using assms(1) by (simp add: getStats_def countDocuments_def db_stats_def)
  have "length ?keep + length (filter (\<lambda>d. doc_id d \<in> set ids) (documents db)) =
          length (documents db)"
    using sum_length_filter_compl [of "\<lambda>d. doc_id d \<in> set ids" "documents db"] by simp
  then have c: "length ?keep + card (set ids \<inter> doc_id ` set (documents db)) = length (documents db)"
    using length_filter_ids [OF assms(2)] by simp
  have n: "?db' = db" if "set ids \<inter> doc_id ` set (documents db) = {}"
  proof -
    have "?keep = documents db" using that by (intro filter_True) auto
    then show ?thesis by simp
  qed
  show ?thesis using d s s' c n by (intro exI [of _ ?db']) auto
qed


theorem delete_ignores_missing_ids_witness:
  "fault (example_database [example_document ''x'' [1, 2, 3], example_document ''y'' [4, 5, 6]]) = None
   \<and> distinct (map doc_id (documents
        (example_database [example_document ''x'' [1, 2, 3], example_document ''y'' [4, 5, 6]])))
   \<and> delete (example_config 3) [''y'', ''z'']
        (example_database [example_document ''x'' [1, 2, 3], example_document ''y'' [4, 5, 6]]) =
       Inr (example_database [example_document ''x'' [1, 2, 3]])
   \<and> getStats (example_config 3)
        (example_database [example_document ''x'' [1, 2, 3], example_document ''y'' [4, 5, 6]]) =
       Inr \<lparr>totalVectors = 2, dimensions_stats = 3, indexSize = 0\<rparr>
   \<and> getStats (example_config 3) (example_database [example_document ''x'' [1, 2, 3]]) =
       Inr \<lparr>totalVectors = 1, dimensions_stats = 3, indexSize = 0\<rparr>
   \<and> card (set [''y'', ''z''] \<inter> doc_id ` set (documents
        (example_database [example_document ''x'' [1, 2, 3], example_document ''y'' [4, 5, 6]]))) = 1
   \<and> delete (example_config 3) [''z'']
        (example_database [example_document ''x'' [1, 2, 3], example_document ''y'' [4, 5, 6]]) =
       Inr (example_database [example_document ''x'' [1, 2, 3], example_document ''y'' [4, 5, 6]])"
proof -
  let ?db = "example_database [example_document ''x'' [1, 2, 3], example_document ''y'' [4, 5, 6]]"
  have f: "fault ?db = None" by (simp add: example_database_def)
  have d: "distinct (map doc_id (documents ?db))"
    by (simp add: example_database_def example_document_def)
  have del: "delete (example_config 3) [''y'', ''z''] ?db =
               Inr (example_database [example_document ''x'' [1, 2, 3]])"
    by (simp add: delete_def deleteMany_in_def example_database_def example_document_def)
  have s: "getStats (example_config 3) ?db =
             Inr \<lparr>totalVectors = 2, dimensions_stats = 3, indexSize = 0\<rparr>"
    by (simp add: getStats_def countDocuments_def db_stats_def example_database_def example_config_def)
  have s': "getStats (example_config 3) (example_database [example_document ''x'' [1, 2, 3]]) =
             Inr \<lparr>totalVectors = 1, dimensions_stats = 3, indexSize = 0\<rparr>"
    by (simp add: getStats_def countDocuments_def db_stats_def example_database_def example_config_def)
  from delete_ignores_missing_ids [OF f d, of "example_config 3" "[''y'', ''z'']"] del s s'
  have c: "card (set [''y'', ''z''] \<inter> doc_id ` set (documents ?db)) = 1"
    by auto
  have z: "set [''z''] \<inter> doc_id ` set (documents ?db) = {}"
    by (simp add: example_database_def example_document_def)
  from delete_ignores_missing_ids [OF f d, of "example_config 3" "[''z'']"] z
  have n: "delete (example_config 3) [''z''] ?db = Inr ?db"
    by auto
  from f d del s s' c n show ?thesis by simp
qed

subsection \<open>The filter translation\<close>

lemma has_entry_upd:
  "has_entry (fq(F \<mapsto> ob)) (f, n, v) =
     (if f = F then ob n = Some v else has_entry fq (f, n, v))"
  by (simp add: has_entry_def)

lemma spec_entry_field:
  "(f, n, v) \<in> set (spec_entry_predicates (k, x)) \<Longrightarrow> f = filter_field k"
  by (auto simp: spec_entry_predicates_def filter_field_def split: if_splits jsval.splits option.splits)

lemma spec_predicates_field:
  "(f, n, v) \<in> set (spec_predicates fs) \<Longrightarrow> \<exists>k \<in> fst ` set fs. f = filter_field k"
  by (auto simp: spec_predicates_def dest!: spec_entry_field) force

lemma spec_entry_gte:
  "(''metadata.publishedAt'', ''$gte'', v) \<in> set (spec_entry_predicates (k, x)) \<Longrightarrow>
   k = ''publishedAfter''"
  by (auto simp: spec_entry_predicates_def split: if_splits jsval.splits option.splits)

lemma spec_entry_lte:
  "(''metadata.publishedAt'', ''$lte'', v) \<in> set (spec_entry_predicates (k, x)) \<Longrightarrow>
   k = ''publishedBefore''"
  by (auto simp: spec_entry_predicates_def split: if_splits jsval.splits option.splits)

lemma filter_field_startTime:
  "filter_field k = ''metadata.startTime'' \<Longrightarrow> k = ''startTimeRange'' \<or> k = ''startTime''"
  by (auto simp: filter_field_def split: if_splits)

lemma filter_field_other:
  "filter_field k = ''metadata.'' @ k' \<Longrightarrow>
   k = k' \<or> (k' = ''publishedAt'' \<and> (k = ''publishedAfter'' \<or> k = ''publishedBefore''))
         \<or> (k' = ''startTime'' \<and> k = ''startTimeRange'')"
  by (auto simp: filter_field_def split: if_splits)

lemma spec_predicates_snoc:
  "set (spec_predicates (fs @ [e])) = set (spec_predicates fs) \<union> set (spec_entry_predicates e)"
  by (simp add: spec_predicates_def)

lemma filter_entries_snoc:
  "filter_entries fq (fs @ [e]) =
     (case filter_entries fq fs of Inl err \<Rightarrow> Inl err | Inr fq' \<Rightarrow> filter_entry fq' e)"
  by (induction fs arbitrary: fq) (auto split: sum.splits)

lemma step_overwrite:
  assumes inv: "\<forall>q. has_entry fq q \<longleftrightarrow> q \<in> set (spec_predicates fs)"
    and free: "\<forall>n v. (F, n, v) \<notin> set (spec_predicates fs)"
    and new: "\<forall>f n v. (f, n, v) \<in> set E \<longleftrightarrow> f = F \<and> ob n = Some v"
  shows "\<forall>q. has_entry (fq(F \<mapsto> ob)) q \<longleftrightarrow> q \<in> set (spec_predicates fs) \<union> set E"
proof
  fix q :: "string \<times> string \<times> jsval"
  obtain f n v where q: "q = (f, n, v)" by (cases q)
  show "has_entry (fq(F \<mapsto> ob)) q \<longleftrightarrow> q \<in> set (spec_predicates fs) \<union> set E"
  proof (cases "f = F")
    case True
    then show ?thesis using q free new by (simp add: has_entry_upd)
  next
    case False
    then show ?thesis using q inv new by (simp add: has_entry_upd)
  qed
qed

lemma step_extend:
  assumes inv: "\<forall>q. has_entry fq q \<longleftrightarrow> q \<in> set (spec_predicates fs)"
    and free: "\<forall>v. (F, n0, v) \<notin> set (spec_predicates fs)"
  shows "\<forall>q. has_entry
               (fq(F \<mapsto> (case fq F of None \<Rightarrow> Map.empty | Some ob \<Rightarrow> ob)(n0 \<mapsto> x))) q
             \<longleftrightarrow> q \<in> set (spec_predicates fs) \<union> {(F, n0, x)}"
proof
  fix q :: "string \<times> string \<times> jsval"
  obtain f n v where q: "q = (f, n, v)" by (cases q)
  let ?ob = "case fq F of None \<Rightarrow> Map.empty | Some ob \<Rightarrow> ob"
  have old: "?ob n = Some v \<longleftrightarrow> (F, n, v) \<in> set (spec_predicates fs)"
    using inv [rule_format, of "(F, n, v)"] by (simp add: has_entry_def split: option.splits)
  show "has_entry (fq(F \<mapsto> ?ob(n0 \<mapsto> x))) q
          \<longleftrightarrow> q \<in> set (spec_predicates fs) \<union> {(F, n0, x)}"
  proof (cases "f = F")
    case True
    show ?thesis
    proof (cases "n = n0")
      case True
      with \<open>f = F\<close> show ?thesis using q free by (auto simp add: has_entry_upd)
    next
      case False
      with \<open>f = F\<close> show ?thesis using q old by (simp add: has_entry_upd)
    qed
  next
    case False
    then show ?thesis using q inv by (simp add: has_entry_upd)
  qed
qed

lemma field_free:
  assumes "k \<notin> fst ` set fs" and "\<not> overwrites (map fst fs) k"
    and "k \<noteq> ''publishedAfter''" and "k \<noteq> ''publishedBefore''"
  shows "(filter_field k, n, v) \<notin> set (spec_predicates fs)"
proof
  assume "(filter_field k, n, v) \<in> set (spec_predicates fs)"
  then obtain k' where k': "k' \<in> fst ` set fs" "filter_field k = filter_field k'"
    using spec_predicates_field by blast
  have ne: "k' \<noteq> k" using k'(1) assms(1) by blast
  have mem': "k' \<in> set (map fst fs)" using k'(1) by simp
  show False
  proof (cases "k = ''startTimeRange''")
    case True
    have "filter_field k = ''metadata.startTime''" by (simp only: True filter_field_def) simp
    then have "filter_field k' = ''metadata.startTime''" using k'(2) by simp
    from filter_field_startTime [OF this] have "k' = ''startTime''" using ne True by blast
    then have "overwrites (map fst fs) k" using True mem' unfolding overwrites_def by blast
    then show False using assms(2) by blast
  next
    case False
    have "filter_field k = ''metadata.'' @ k"
      using False assms(3,4) by (simp add: filter_field_def)
    then have "filter_field k' = ''metadata.'' @ k" using k'(2) by simp
    from filter_field_other [OF this]
    have "(k = ''publishedAt'' \<and> (k' = ''publishedAfter'' \<or> k' = ''publishedBefore''))
               \<or> (k = ''startTime'' \<and> k' = ''startTimeRange'')"
      using ne by blast
    then have "overwrites (map fst fs) k" using mem' unfolding overwrites_def by blast
    then show False using assms(2) by blast
  qed
qed

lemma spec_entry_eq:
  assumes "k \<noteq> ''publishedAfter''" and "k \<noteq> ''publishedBefore''" and "k \<noteq> ''startTimeRange''"
  shows "spec_entry_predicates (k, x) = [(''metadata.'' @ k, ''$eq'', x)]"
  using assms
  by (cases "k = ''videoId''"; cases "k = ''playlistId''") (simp_all add: spec_entry_predicates_def)

lemma eq_object:
  "[''$eq'' \<mapsto> x] n = Some v \<longleftrightarrow> n = ''$eq'' \<and> v = x"
  by auto

lemma filter_entry_step:
  assumes inv: "\<forall>q. has_entry fq q \<longleftrightarrow> q \<in> set (spec_predicates fs)"
    and dm: "dom fq = fst ` set (spec_predicates fs)"
    and new: "k \<notin> fst ` set fs"
    and nc: "\<not> overwrites (map fst fs) k"
    and rb: "k \<noteq> ''startTimeRange'' \<or> has_bound x"
  shows "\<exists>fq'. filter_entry fq (k, x) = Inr fq'
           \<and> (\<forall>q. has_entry fq' q \<longleftrightarrow> q \<in> set (spec_predicates (fs @ [(k, x)])))
           \<and> dom fq' = fst ` set (spec_predicates (fs @ [(k, x)]))"
proof -
  consider (after) "k = ''publishedAfter''" | (before) "k = ''publishedBefore''"
    | (range) "k = ''startTimeRange''"
    | (eq) "k \<noteq> ''publishedAfter''" "k \<noteq> ''publishedBefore''" "k \<noteq> ''startTimeRange''"
    by blast
  then show ?thesis
  proof cases
    case after
    have free: "\<forall>v. (''metadata.publishedAt'', ''$gte'', v) \<notin> set (spec_predicates fs)"
    proof (intro allI notI)
      fix v assume "(''metadata.publishedAt'', ''$gte'', v) \<in> set (spec_predicates fs)"
      then obtain e where e: "e \<in> set fs"
        "(''metadata.publishedAt'', ''$gte'', v) \<in> set (spec_entry_predicates e)"
        by (auto simp: spec_predicates_def)
      then have "fst e = ''publishedAfter''" using spec_entry_gte [of v "fst e" "snd e"] by simp
      then have "k \<in> fst ` set fs" using after e(1) by (metis image_eqI)
      then show False using new by blast
    qed
    let ?new = "fq(''metadata.publishedAt'' \<mapsto>
                      (case fq ''metadata.publishedAt'' of None \<Rightarrow> Map.empty | Some ob \<Rightarrow> ob)
                        (''$gte'' \<mapsto> x))"
    have e: "filter_entry fq (k, x) = Inr ?new"
      using after by (simp add: filter_entry_def Let_def)
    have s: "set (spec_entry_predicates (k, x)) = {(''metadata.publishedAt'', ''$gte'', x)}"
      using after by (simp add: spec_entry_predicates_def)
    have h: "\<forall>q. has_entry ?new q \<longleftrightarrow> q \<in> set (spec_predicates (fs @ [(k, x)]))"
      unfolding spec_predicates_snoc s by (rule step_extend [OF inv free, of x])
    have d: "dom ?new = fst ` set (spec_predicates (fs @ [(k, x)]))"
      unfolding spec_predicates_snoc s image_Un by (simp add: dm)
    show ?thesis
    proof (intro exI [of _ ?new] conjI)
      show "filter_entry fq (k, x) = Inr ?new" by (rule e)
      show "\<forall>q. has_entry ?new q \<longleftrightarrow> q \<in> set (spec_predicates (fs @ [(k, x)]))" by (rule h)
      show "dom ?new = fst ` set (spec_predicates (fs @ [(k, x)]))" by (rule d)
    qed
  next
    case before
    have free: "\<forall>v. (''metadata.publishedAt'', ''$lte'', v) \<notin> set (spec_predicates fs)"
    proof (intro allI notI)
      fix v assume "(''metadata.publishedAt'', ''$lte'', v) \<in> set (spec_predicates fs)"
      then obtain e where e: "e \<in> set fs"
        "(''metadata.publishedAt'', ''$lte'', v) \<in> set (spec_entry_predicates e)"
        by (auto simp: spec_predicates_def)
      then have "fst e = ''publishedBefore''" using spec_entry_lte [of v "fst e" "snd e"] by simp
      then have "k \<in> fst ` set fs" using before e(1) by (metis image_eqI)
      then show False using new by blast
    qed
    let ?new = "fq(''metadata.publishedAt'' \<mapsto>
                      (case fq ''metadata.publishedAt'' of None \<Rightarrow> Map.empty | Some ob \<Rightarrow> ob)
                        (''$lte'' \<mapsto> x))"
    have e: "filter_entry fq (k, x) = Inr ?new"
      using before by (simp add: filter_entry_def Let_def)
    have s: "set (spec_entry_predicates (k, x)) = {(''metadata.publishedAt'', ''$lte'', x)}"
      using before by (simp add: spec_entry_predicates_def)
    have h: "\<forall>q. has_entry ?new q \<longleftrightarrow> q \<in> set (spec_predicates (fs @ [(k, x)]))"
      unfolding spec_predicates_snoc s by (rule step_extend [OF inv free, of x])
    have d: "dom ?new = fst ` set (spec_predicates (fs @ [(k, x)]))"
      unfolding spec_predicates_snoc s image_Un by (simp add: dm)
    show ?thesis
    proof (intro exI [of _ ?new] conjI)
      show "filter_entry fq (k, x) = Inr ?new" by (rule e)
      show "\<forall>q. has_entry ?new q \<longleftrightarrow> q \<in> set (spec_predicates (fs @ [(k, x)]))" by (rule h)
      show "dom ?new = fst ` set (spec_predicates (fs @ [(k, x)]))" by (rule d)
    qed
  next
    case range
    have free: "\<forall>n v. (''metadata.startTime'', n, v) \<notin> set (spec_predicates fs)"
      using field_free [OF new nc] range by (simp add: filter_field_def)
    have hb: "has_bound x" using rb range by blast
    then obtain mn mx where d: "destructure_min_max x = Inr (mn, mx)"
      and b: "mn \<noteq> JUndefined \<or> mx \<noteq> JUndefined"
      by (auto simp: has_bound_def split: sum.splits)
    let ?ob1 = "if mn \<noteq> JUndefined then [''$gte'' \<mapsto> mn] else Map.empty"
    let ?ob2 = "if mx \<noteq> JUndefined then ?ob1(''$lte'' \<mapsto> mx) else ?ob1"
    let ?new = "fq(''metadata.startTime'' \<mapsto> ?ob2)"
    have e: "filter_entry fq (k, x) = Inr ?new"
      using range d by (simp add: filter_entry_def Let_def)
    have s: "\<forall>f n v. (f, n, v) \<in> set (spec_entry_predicates (k, x))
               \<longleftrightarrow> f = ''metadata.startTime'' \<and> ?ob2 n = Some v"
      using range d
      by (cases x) (auto simp: spec_entry_predicates_def split: option.splits if_splits)
    have h: "\<forall>q. has_entry ?new q \<longleftrightarrow> q \<in> set (spec_predicates (fs @ [(k, x)]))"
      unfolding spec_predicates_snoc by (rule step_overwrite [OF inv free s])
    have "\<exists>n v. ?ob2 n = Some v"
    proof (cases "mx \<noteq> JUndefined")
      case True
      then have "?ob2 ''$lte'' = Some mx" by simp
      then show ?thesis by blast
    next
      case False
      then have "?ob2 ''$gte'' = Some mn" using b by simp
      then show ?thesis by blast
    qed
    then obtain n v where "(''metadata.startTime'', n, v) \<in> set (spec_entry_predicates (k, x))"
      using s by blast
    then have "''metadata.startTime'' \<in> fst ` set (spec_entry_predicates (k, x))"
      by (metis image_eqI fst_conv)
    moreover have "fst ` set (spec_entry_predicates (k, x)) \<subseteq> {''metadata.startTime''}"
      using s by auto
    ultimately have fs: "fst ` set (spec_entry_predicates (k, x)) = {''metadata.startTime''}"
      by blast
    have dd: "dom ?new = fst ` set (spec_predicates (fs @ [(k, x)]))"
      unfolding spec_predicates_snoc image_Un fs by (simp add: dm)
    show ?thesis
    proof (intro exI [of _ ?new] conjI)
      show "filter_entry fq (k, x) = Inr ?new" by (rule e)
      show "\<forall>q. has_entry ?new q \<longleftrightarrow> q \<in> set (spec_predicates (fs @ [(k, x)]))" by (rule h)
      show "dom ?new = fst ` set (spec_predicates (fs @ [(k, x)]))" by (rule dd)
    qed
  next
    case eq
    have free: "\<forall>n v. (''metadata.'' @ k, n, v) \<notin> set (spec_predicates fs)"
      using field_free [OF new nc eq(1,2)] eq by (simp add: filter_field_def)
    let ?new = "fq(''metadata.'' @ k \<mapsto> [''$eq'' \<mapsto> x])"
    have e: "filter_entry fq (k, x) = Inr ?new"
      using eq by (simp add: filter_entry_def Let_def)
    have s: "\<forall>f n v. (f, n, v) \<in> set (spec_entry_predicates (k, x))
               \<longleftrightarrow> f = ''metadata.'' @ k \<and> [''$eq'' \<mapsto> x] n = Some v"
      by (auto simp add: spec_entry_eq [OF eq] eq_object)
    have h: "\<forall>q. has_entry ?new q \<longleftrightarrow> q \<in> set (spec_predicates (fs @ [(k, x)]))"
      unfolding spec_predicates_snoc by (rule step_overwrite [OF inv free s])
    have d: "dom ?new = fst ` set (spec_predicates (fs @ [(k, x)]))"
      unfolding spec_predicates_snoc image_Un spec_entry_eq [OF eq] by (simp add: dm)
    show ?thesis
    proof (intro exI [of _ ?new] conjI)
      show "filter_entry fq (k, x) = Inr ?new" by (rule e)
      show "\<forall>q. has_entry ?new q \<longleftrightarrow> q \<in> set (spec_predicates (fs @ [(k, x)]))" by (rule h)
      show "dom ?new = fst ` set (spec_predicates (fs @ [(k, x)]))" by (rule d)
    qed
  qed
qed

lemma overwrites_set: "set a = set b \<Longrightarrow> overwrites a k = overwrites b k"
  by (simp add: overwrites_def)

lemma no_overwrite_from_snoc:
  "no_overwrite_from seen (ks @ [k]) =
     (no_overwrite_from seen ks \<and> \<not> overwrites (ks @ seen) k)"
proof (induction ks arbitrary: seen)
  case Nil
  then show ?case by simp
next
  case (Cons a ks)
  have "overwrites (ks @ a # seen) k = overwrites (a # ks @ seen) k"
    by (rule overwrites_set) auto
  then show ?case using Cons.IH [of "a # seen"] by auto
qed

lemma filter_entries_translation:
  assumes "distinct (map fst fs)" and "no_field_collision (map fst fs)"
    and "range_has_bound fs"
  shows "\<exists>fq. filter_entries Map.empty fs = Inr fq
           \<and> (\<forall>q. has_entry fq q \<longleftrightarrow> q \<in> set (spec_predicates fs))
           \<and> dom fq = fst ` set (spec_predicates fs)"
  using assms
proof (induction fs rule: rev_induct)
  case Nil
  then show ?case by (simp add: has_entry_def spec_predicates_def)
next
  case (snoc e fs)
  obtain k x where e: "e = (k, x)" by (cases e)
  have d: "distinct (map fst fs)" and new: "k \<notin> fst ` set fs"
    using snoc.prems(1) e by auto
  have "no_overwrite_from [] (map fst fs @ [k])"
    using snoc.prems(2) e by (simp add: no_field_collision_def)
  then have nc: "no_field_collision (map fst fs)" and nc': "\<not> overwrites (map fst fs) k"
    by (simp_all add: no_overwrite_from_snoc no_field_collision_def)
  have rd: "range_has_bound fs"
    and rd': "k \<noteq> ''startTimeRange'' \<or> has_bound x"
    using snoc.prems(3) e by (simp_all add: range_has_bound_def)
  obtain fq where fq: "filter_entries Map.empty fs = Inr fq"
    and inv: "\<forall>q. has_entry fq q \<longleftrightarrow> q \<in> set (spec_predicates fs)"
    and dm: "dom fq = fst ` set (spec_predicates fs)"
    using snoc.IH [OF d nc rd] by blast
  obtain fq' where s: "filter_entry fq (k, x) = Inr fq'"
    and inv': "\<forall>q. has_entry fq' q \<longleftrightarrow> q \<in> set (spec_predicates (fs @ [(k, x)]))"
    and dm': "dom fq' = fst ` set (spec_predicates (fs @ [(k, x)]))"
    using filter_entry_step [OF inv dm new nc' rd'] by blast
  have "filter_entries Map.empty (fs @ [e]) = Inr fq'"
    using fq s e by (simp add: filter_entries_snoc)
  then show ?case using inv' dm' e by blast
qed

lemma spec_entry_operator:
  "(f, n, v) \<in> set (spec_entry_predicates (k, x)) \<Longrightarrow> n = ''$eq'' \<or> n = ''$gte'' \<or> n = ''$lte''"
  by (auto simp: spec_entry_predicates_def split: if_splits jsval.splits option.splits)

lemma spec_predicates_operator:
  "(f, n, v) \<in> set (spec_predicates fs) \<Longrightarrow> n = ''$eq'' \<or> n = ''$gte'' \<or> n = ''$lte''"
proof -
  assume "(f, n, v) \<in> set (spec_predicates fs)"
  then obtain e where "e \<in> set fs" "(f, n, v) \<in> set (spec_entry_predicates e)"
    by (auto simp: spec_predicates_def)
  then show ?thesis using spec_entry_operator [of f n v "fst e" "snd e"] by simp
qed

text \<open>
  Three filter objects. With the keys \<open>publishedAfter\<close> and \<open>publishedAt\<close>, in this
  order, the equality written for \<open>publishedAt\<close> replaces the operator object of
  \<open>metadata.publishedAt\<close>, and the lower bound of \<open>publishedAfter\<close> is lost. A
  \<open>startTimeRange\<close> of \<open>null\<close> is not translated at all: destructuring it throws. A
  \<open>startTimeRange\<close> with neither bound defined stands for no predicate, yet the document
  gets the field \<open>metadata.startTime\<close> with an empty operator object.
\<close>

theorem buildFilterQuery_collision_counterexample:
  "(''metadata.publishedAt'', ''$gte'', JStr ''2024-01-01'')
     \<in> set (spec_predicates [(''publishedAfter'', JStr ''2024-01-01''),
                              (''publishedAt'', JStr ''2024-06-01'')])
   \<and> \<not> result_has_entry
          (buildFilterQuery [(''publishedAfter'', JStr ''2024-01-01''),
                             (''publishedAt'', JStr ''2024-06-01'')])
          (''metadata.publishedAt'', ''$gte'', JStr ''2024-01-01'')
   \<and> result_has_entry
          (buildFilterQuery [(''publishedAfter'', JStr ''2024-01-01''),
                             (''publishedAt'', JStr ''2024-06-01'')])
          (''metadata.publishedAt'', ''$eq'', JStr ''2024-06-01'')
   \<and> buildFilterQuery [(''startTimeRange'', JNull)] =
       Inl (TypeError ''Cannot destructure null'')
   \<and> spec_predicates [(''startTimeRange'', JObj [])] = []
   \<and> buildFilterQuery [(''startTimeRange'', JObj [])] =
       Inr [''metadata.startTime'' \<mapsto> Map.empty]"
  by (simp add: spec_predicates_def spec_entry_predicates_def result_has_entry_def
        buildFilterQuery_def filter_entry_def has_entry_def Let_def)

text \<open>
  C7, amended. Take a filter object (its keys distinct) in which no key \<open>publishedAt\<close>
  comes after \<open>publishedAfter\<close> or \<open>publishedBefore\<close>, the keys \<open>startTime\<close> and
  \<open>startTimeRange\<close> do not both occur, and the value of \<open>startTimeRange\<close>, if the key is
  there, can be destructured and has \<open>min\<close> or \<open>max\<close> defined. Then \<open>buildFilterQuery\<close>
  returns a filter document whose entries are exactly those the translation names:
  \<open>$eq\<close> on \<open>metadata.videoId\<close> and \<open>metadata.playlistId\<close>, \<open>$gte\<close> and \<open>$lte\<close> on the one
  field \<open>metadata.publishedAt\<close> for \<open>publishedAfter\<close> and \<open>publishedBefore\<close>, \<open>$gte\<close> and
  \<open>$lte\<close> on \<open>metadata.startTime\<close> for the defined \<open>min\<close> and \<open>max\<close> of \<open>startTimeRange\<close>,
  \<open>$eq\<close> on \<open>metadata.<key>\<close> for every other key. The document holds all of them
  together; it has no other field, no operator object is empty, and no operator other
  than \<open>$eq\<close>, \<open>$gte\<close> and \<open>$lte\<close> occurs in it.
\<close>

theorem buildFilterQuery_translation:
  assumes "distinct (map fst fs)" and "no_field_collision (map fst fs)"
    and "range_has_bound fs"
  shows "\<exists>fq. buildFilterQuery fs = Inr fq
           \<and> (\<forall>q. has_entry fq q \<longleftrightarrow> q \<in> set (spec_predicates fs))
           \<and> dom fq = fst ` set (spec_predicates fs)
           \<and> (\<forall>f ob. fq f = Some ob \<longrightarrow>
                ob \<noteq> Map.empty \<and> dom ob \<subseteq> {''$eq'', ''$gte'', ''$lte''})"
proof -
  obtain fq where b: "buildFilterQuery fs = Inr fq"
    and inv: "\<forall>q. has_entry fq q \<longleftrightarrow> q \<in> set (spec_predicates fs)"
    and dm: "dom fq = fst ` set (spec_predicates fs)"
    using filter_entries_translation [OF assms] unfolding buildFilterQuery_def by blast
  have ob: "ob \<noteq> Map.empty \<and> dom ob \<subseteq> {''$eq'', ''$gte'', ''$lte''}"
    if f: "fq f = Some ob" for f ob
  proof
    have "f \<in> fst ` set (spec_predicates fs)" using f dm by blast
    then obtain n v where "(f, n, v) \<in> set (spec_predicates fs)" by force
    then have "has_entry fq (f, n, v)" using inv by blast
    then have "ob n = Some v" using f by (simp add: has_entry_def)
    then show "ob \<noteq> Map.empty" by auto
  next
    show "dom ob \<subseteq> {''$eq'', ''$gte'', ''$lte''}"
    proof
      fix n assume "n \<in> dom ob"
      then obtain v where "ob n = Some v" by blast
      then have "has_entry fq (f, n, v)" using f by (simp add: has_entry_def)
      then have "(f, n, v) \<in> set (spec_predicates fs)" using inv by blast
      from spec_predicates_operator [OF this] show "n \<in> {''$eq'', ''$gte'', ''$lte''}"
        by blast
    qed
  qed
  show ?thesis
  proof (intro exI [of _ fq] conjI allI impI)
    show "buildFilterQuery fs = Inr fq" by (rule b)
  next
    fix q show "has_entry fq q \<longleftrightarrow> q \<in> set (spec_predicates fs)" using inv by blast
  next
    show "dom fq = fst ` set (spec_predicates fs)" by (rule dm)
  next
    fix f ob assume "fq f = Some ob"
    then show "ob \<noteq> Map.empty" using ob by blast
  next
    fix f ob assume "fq f = Some ob"
    then show "dom ob \<subseteq> {''$eq'', ''$gte'', ''$lte''}" using ob by blast
  qed
qed

theorem buildFilterQuery_translation_witness:
  "distinct (map fst example_filters) \<and> no_field_collision (map fst example_filters)
   \<and> range_has_bound example_filters
   \<and> spec_predicates example_filters =
       [(''metadata.videoId'', ''$eq'', JStr ''v1''),
        (''metadata.publishedAt'', ''$eq'', JStr ''2024-06-01''),
        (''metadata.publishedAt'', ''$gte'', JStr ''2024-01-01''),
        (''metadata.publishedAt'', ''$lte'', JStr ''2024-12-31''),
        (''metadata.startTime'', ''$gte'', JNum 10),
        (''metadata.channel'', ''$eq'', JStr ''c'')]
   \<and> result_has_entry (buildFilterQuery example_filters)
         (''metadata.publishedAt'', ''$eq'', JStr ''2024-06-01'')
   \<and> result_has_entry (buildFilterQuery example_filters)
         (''metadata.publishedAt'', ''$gte'', JStr ''2024-01-01'')
   \<and> result_has_entry (buildFilterQuery example_filters)
         (''metadata.publishedAt'', ''$lte'', JStr ''2024-12-31'')
   \<and> \<not> result_has_entry (buildFilterQuery example_filters)
         (''metadata.startTime'', ''$lte'', JNum 10)"
proof -
  have d: "distinct (map fst example_filters)" by (simp add: example_filters_def)
  have n: "no_field_collision (map fst example_filters)"
    by (simp add: example_filters_def no_field_collision_def overwrites_def)
  have r: "range_has_bound example_filters"
    by (simp add: example_filters_def range_has_bound_def has_bound_def)
  have s: "spec_predicates example_filters =
       [(''metadata.videoId'', ''$eq'', JStr ''v1''),
        (''metadata.publishedAt'', ''$eq'', JStr ''2024-06-01''),
        (''metadata.publishedAt'', ''$gte'', JStr ''2024-01-01''),
        (''metadata.publishedAt'', ''$lte'', JStr ''2024-12-31''),
        (''metadata.startTime'', ''$gte'', JNum 10),
        (''metadata.channel'', ''$eq'', JStr ''c'')]"
    by (simp add: example_filters_def spec_predicates_def spec_entry_predicates_def)
  obtain fq where fq: "buildFilterQuery example_filters = Inr fq"
    and t: "\<forall>q. has_entry fq q \<longleftrightarrow> q \<in> set (spec_predicates example_filters)"
    using buildFilterQuery_translation [OF d n r] by blast
  have a: "result_has_entry (buildFilterQuery example_filters)
             (''metadata.publishedAt'', ''$eq'', JStr ''2024-06-01'')"
    using fq t s by (simp add: result_has_entry_def)
  have b: "result_has_entry (buildFilterQuery example_filters)
             (''metadata.publishedAt'', ''$gte'', JStr ''2024-01-01'')"
    using fq t s by (simp add: result_has_entry_def)
  have c: "result_has_entry (buildFilterQuery example_filters)
             (''metadata.publishedAt'', ''$lte'', JStr ''2024-12-31'')"
    using fq t s by (simp add: result_has_entry_def)
  have e: "\<not> result_has_entry (buildFilterQuery example_filters)
             (''metadata.startTime'', ''$lte'', JNum 10)"
    using fq t s by (simp add: result_has_entry_def)
  from d n r s a b c e show ?thesis by simp
qed

end
